theory Spec2Isabelle
  imports Main "HOL-Library.AList" "HOL-Library.Multiset"
begin

section \<open>The commute monitor of PTV\_v3: data model\<close>

text \<open>
  The development follows \<^verbatim>\<open>src/web/data.js\<close>, \<^verbatim>\<open>src/web/ptv.js\<close> and
  \<^verbatim>\<open>src/web/logic.js\<close>. Instants are JavaScript time values: integer milliseconds since
  the epoch. A \<^verbatim>\<open>Date\<close> whose time value is \<^verbatim>\<open>NaN\<close> (an Invalid Date) is \<open>None\<close>.
  The date strings of the API payload are taken as already parsed, and the payload is
  typed by the documented schema of the PTV v3 API; keys of the payload that the code
  tests for presence are optional.
\<close>

subsection \<open>The route catalog (\<^verbatim>\<open>data.js\<close>)\<close>

record direction =
  dir_id :: nat
  origin :: nat
  destination :: nat

record duration =
  dur_min :: int
  dur_max :: int
  dur_avg :: int

text \<open>
  \<open>walking\<close> is the object literal \<^verbatim>\<open>{stop: seconds, ...}\<close>; a stop that is not a key
  reads as \<^verbatim>\<open>undefined\<close>, here \<open>None\<close>.
\<close>

record connection =
  conn_id :: nat
  conn_type :: nat
  conn_name :: string
  conn_number :: string
  forward_direction :: direction
  reverse_direction :: "direction option"
  walking :: "nat \<rightharpoonup> int"
  conn_duration :: duration

subsection \<open>Decoded API payloads\<close>

text \<open>The code only tests \<^verbatim>\<open>vehicle_position\<close> against \<^verbatim>\<open>null\<close>.\<close>

datatype vehicle_position = VehiclePosition

record run =
  run_run_ref :: "string option"
  run_direction_id :: nat
  vehicle_position :: "vehicle_position option"

record departure =
  dep_run_ref :: "string option"
  estimated_departure_utc :: "int option"
  scheduled_departure_utc :: int

record disruption =
  title :: string

text \<open>
  One decoded JSON object: \<^verbatim>\<open>runs\<close> of the runs endpoint, \<^verbatim>\<open>departures\<close> and
  \<^verbatim>\<open>disruptions\<close> of the departures endpoint. A key that is absent is \<open>None\<close>.
\<close>

record payload =
  runs :: "run list option"
  departures :: "departure list option"
  disruptions :: "(string \<times> disruption) list option"

subsection \<open>Services and the shared state\<close>

record health =
  run_active :: bool
  has_estimated :: bool
  route_active :: bool

record service =
  svc_id :: string
  svc_run_ref :: "string option"
  svc_route_id :: nat
  svc_health :: health
  get_going_by :: "int option"
  arrive_by :: "int option"
  svc_disruptions :: "string list"

text \<open>
  The two globals of \<^verbatim>\<open>logic.js\<close>: the object \<^verbatim>\<open>services\<close>, whose keys are composite
  id strings and keep their insertion order, and the set \<^verbatim>\<open>everActive\<close>.
\<close>

record state =
  services :: "(string \<times> service) list"
  everActive :: "string set"

definition initial_state :: state where
  "initial_state = \<lparr>services = [], everActive = {}\<rparr>"

section \<open>The renderer's health score (\<^verbatim>\<open>updateTable\<close>, lines 89 and 100 to 102)\<close>

text \<open>
  The legend holds four symbols (black, red, yellow and green circles), given here by
  their UTF-8 bytes.
\<close>

definition legend :: "string list" where
  "legend =
    [[CHR 0xE2, CHR 0x9A, CHR 0xAB],
     [CHR 0xF0, CHR 0x9F, CHR 0x94, CHR 0xB4],
     [CHR 0xF0, CHR 0x9F, CHR 0x9F, CHR 0xA1],
     [CHR 0xF0, CHR 0x9F, CHR 0x9F, CHR 0xA2]]"

text \<open>\<^verbatim>\<open>Object.values(service.health)\<close>, in the order the object literal lists the keys.\<close>

definition health_values :: "health \<Rightarrow> bool list" where
  "health_values h = [run_active h, has_estimated h, route_active h]"

text \<open>\<^verbatim>\<open>reduce((acc, val) => acc + (val ? 1 : 0), 0)\<close>\<close>

definition healthScore :: "service \<Rightarrow> nat" where
  "healthScore s = foldl (\<lambda>acc val. acc + (if val then 1 else 0)) 0 (health_values (svc_health s))"

text \<open>\<^verbatim>\<open>legend[i]\<close>: an index past the end reads \<^verbatim>\<open>undefined\<close>, here \<open>None\<close>.\<close>

definition legend_at :: "nat \<Rightarrow> string option" where
  "legend_at i = (if i < length legend then Some (legend ! i) else None)"

definition healthCell_text :: "service \<Rightarrow> string option" where
  "healthCell_text s = legend_at (healthScore s)"

section \<open>Strings and objects of the JavaScript runtime\<close>

text \<open>
  A template literal turns a non-negative integer into its decimal digits. Route, direction
  and stop ids and the slot index are such integers.
\<close>

definition digit_char :: "nat \<Rightarrow> char" where
  "digit_char d = char_of (48 + d)"

fun show_nat :: "nat \<Rightarrow> string" where
  "show_nat n = (if n < 10 then [digit_char n] else show_nat (n div 10) @ [digit_char (n mod 10)])"

declare show_nat.simps [simp del]

text \<open>
  \<^verbatim>\<open>String.prototype.trim\<close> on the white space of ASCII (tab, line feed, vertical tab,
  form feed, carriage return, space).
\<close>

definition is_space :: "char \<Rightarrow> bool" where
  "is_space c = (c \<in> {CHR 0x09, CHR 0x0A, CHR 0x0B, CHR 0x0C, CHR 0x0D, CHR 0x20})"

definition trim :: "string \<Rightarrow> string" where
  "trim s = rev (dropWhile is_space (rev (dropWhile is_space s)))"

text \<open>
  \<^verbatim>\<open>Object.fromEntries\<close>: entries are stored in turn, a later entry with the key of an
  earlier one replaces its value. A key that is \<^verbatim>\<open>null\<close> is stored under the string
  \<^verbatim>\<open>"null"\<close>.
\<close>

definition fromEntries :: "('k \<times> 'v) list \<Rightarrow> ('k \<times> 'v) list" where
  "fromEntries kvs = foldl (\<lambda>obj (k, v). AList.update k v obj) [] kvs"

definition Object_keys :: "('k \<times> 'v) list \<Rightarrow> 'k list" where
  "Object_keys obj = map fst obj"

definition Object_values :: "('k \<times> 'v) list \<Rightarrow> 'v list" where
  "Object_values obj = map snd obj"

definition property_key :: "string option \<Rightarrow> string" where
  "property_key k = (case k of None \<Rightarrow> ''null'' | Some r \<Rightarrow> r)"

text \<open>
  \<^verbatim>\<open>Object.entries\<close> of an object whose keys are all integers (the catalog): the
  entries come in ascending order of the key, whatever the order of the literal.
\<close>

definition Object_entries :: "(nat \<times> 'v) list \<Rightarrow> (nat \<times> 'v) list" where
  "Object_entries lit = sort_key fst (fromEntries lit)"

text \<open>\<^verbatim>\<open>everActive.has(ref)\<close>: the set holds strings, so \<^verbatim>\<open>null\<close> is never a member.\<close>

definition has :: "string set \<Rightarrow> string option \<Rightarrow> bool" where
  "has S ref = (case ref of None \<Rightarrow> False | Some r \<Rightarrow> r \<in> S)"

section \<open>The signed API client (\<^verbatim>\<open>ptv.js\<close>)\<close>

text \<open>
  The faults of the program: \<^verbatim>\<open>fetch\<close> (or the signing before it) rejects, the
  response is not ok, the body does not decode, or a property of \<^verbatim>\<open>undefined\<close> is read.
\<close>

datatype error =
    FetchRejected
  | NotOk string
  | DecodeFailed
  | TypeError

text \<open>
  What the network answers to one request: \<^verbatim>\<open>fetch\<close> rejects, or resolves to a
  response with its \<^verbatim>\<open>ok\<close> flag, its status text and its body, decoded by
  \<^verbatim>\<open>response.json()\<close> (\<open>None\<close> when the body is not JSON).
\<close>

datatype fetch_outcome =
    Rejected
  | Response bool string "payload option"

record request =
  endpoint :: string
  params :: "(string \<times> string) list"

type_synonym network = "request \<Rightarrow> fetch_outcome"

text \<open>
  \<^verbatim>\<open>PTVv3.call\<close>. The developer id is added to the parameters; the signature is a
  function of the request and the key, so the network's answer is a function of the request.
  Every \<^verbatim>\<open>throw\<close> and rejected promise is an \<open>Inl\<close>.
\<close>

definition settle_call :: "fetch_outcome \<Rightarrow> error + payload" where
  "settle_call out =
    (case out of
       Rejected \<Rightarrow> Inl FetchRejected
     | Response ok statusText body \<Rightarrow>
         if \<not> ok then Inl (NotOk (''Network response was not ok: '' @ statusText))
         else (case body of None \<Rightarrow> Inl DecodeFailed | Some p \<Rightarrow> Inr p))"

definition call :: "string \<Rightarrow> network \<Rightarrow> string \<Rightarrow> (string \<times> string) list \<Rightarrow> error + payload" where
  "call devid net ep ps =
     settle_call (net \<lparr>endpoint = ep, params = AList.update ''devid'' devid ps\<rparr>)"

section \<open>The aggregator (\<^verbatim>\<open>checkRoutes\<close>)\<close>

definition runs_endpoint :: "nat \<Rightarrow> connection \<Rightarrow> string" where
  "runs_endpoint routeId c =
     ''/v3/runs/route/'' @ show_nat routeId @ ''/route_type/'' @ show_nat (conn_type c)"

definition departures_endpoint :: "nat \<Rightarrow> connection \<Rightarrow> string" where
  "departures_endpoint routeId c =
     ''/v3/departures/route_type/'' @ show_nat (conn_type c)
       @ ''/stop/'' @ show_nat (origin (forward_direction c))
       @ ''/route/'' @ show_nat routeId"

definition departures_params :: "connection \<Rightarrow> (string \<times> string) list" where
  "departures_params c =
     [(''direction_id'', show_nat (dir_id (forward_direction c))),
      (''max_results'', ''5''),
      (''expand'', ''Disruption'')]"

text \<open>Line 62: the composite id of the slot \<open>index\<close>.\<close>

definition idString :: "nat \<Rightarrow> nat \<Rightarrow> nat \<Rightarrow> nat \<Rightarrow> string" where
  "idString routeId directionId stopId index =
     show_nat routeId @ ''-'' @ show_nat directionId @ ''-'' @ show_nat stopId @ ''-'' @ show_nat index"

text \<open>Lines 38 to 41: the runs of this poll that carry a vehicle position, keyed by run.\<close>

definition activeRuns_of :: "payload \<Rightarrow> nat \<Rightarrow> (string \<times> run) list" where
  "activeRuns_of rp directionId =
     (case runs rp of
        None \<Rightarrow> []
      | Some rs \<Rightarrow>
          fromEntries (map (\<lambda>r. (property_key (run_run_ref r), r))
            (filter (\<lambda>r. vehicle_position r \<noteq> None \<and> run_direction_id r = directionId) rs)))"

text \<open>Line 42: the union happens only under \<^verbatim>\<open>if (runs.runs)\<close>.\<close>

definition observe :: "payload \<Rightarrow> nat \<Rightarrow> string set \<Rightarrow> string set" where
  "observe rp directionId ever =
     (case runs rp of
        None \<Rightarrow> ever
      | Some rs \<Rightarrow> set (Object_keys (activeRuns_of rp directionId)) \<union> ever)"

text \<open>Line 53.\<close>

definition departureTime :: "departure \<Rightarrow> int" where
  "departureTime d =
     (case estimated_departure_utc d of Some e \<Rightarrow> e | None \<Rightarrow> scheduled_departure_utc d)"

text \<open>
  Lines 49 to 77, the Service built for one departure. \<open>buffer\<close> and the walking times
  are seconds. A walking time that is \<^verbatim>\<open>undefined\<close> makes the deadline an Invalid Date.
\<close>

definition build_service ::
  "nat \<Rightarrow> connection \<Rightarrow> int \<Rightarrow> (string \<times> run) list \<Rightarrow> string set \<Rightarrow> string list
     \<Rightarrow> nat \<Rightarrow> departure \<Rightarrow> service" where
  "build_service routeId c buffer activeRuns ever titles index d =
     (let directionId = dir_id (forward_direction c);
          stopId = origin (forward_direction c);
          routeActive = (length (Object_keys activeRuns) > 0);
          runActive = has ever (dep_run_ref d);
          hasEstimated = (estimated_departure_utc d \<noteq> None);
          walkBefore = walking c (origin (forward_direction c));
          getGoingBy = (case walkBefore of
                          None \<Rightarrow> None
                        | Some w \<Rightarrow> Some (departureTime d - w * 1000 - buffer * 1000));
          tripDuration = dur_avg (conn_duration c) * 1000;
          walkAfter = map_option (\<lambda>w. w * 1000) (walking c (destination (forward_direction c)));
          arriveBy = (case walkAfter of
                        None \<Rightarrow> None
                      | Some w \<Rightarrow> Some (departureTime d + tripDuration + w))
      in \<lparr>svc_id = idString routeId directionId stopId index,
          svc_run_ref = dep_run_ref d,
          svc_route_id = conn_id c,
          svc_health = \<lparr>run_active = runActive, has_estimated = hasEstimated,
                         route_active = routeActive\<rparr>,
          get_going_by = getGoingBy,
          arrive_by = arriveBy,
          svc_disruptions = titles\<rparr>)"

text \<open>
  Lines 47 to 78, the loop over \<^verbatim>\<open>departures.departures.entries()\<close> from slot \<open>index\<close> on.
  Line 52 throws a TypeError when the payload has no \<^verbatim>\<open>disruptions\<close>; what was stored
  before stays stored.
\<close>

fun departures_loop ::
  "nat \<Rightarrow> connection \<Rightarrow> int \<Rightarrow> (string \<times> run) list \<Rightarrow> string set \<Rightarrow> payload
     \<Rightarrow> nat \<Rightarrow> departure list \<Rightarrow> (string \<times> service) list
     \<Rightarrow> (string \<times> service) list \<times> error option" where
  "departures_loop routeId c buffer activeRuns ever dp index [] svcs = (svcs, None)"
| "departures_loop routeId c buffer activeRuns ever dp index (d # ds) svcs =
     (case disruptions dp of
        None \<Rightarrow> (svcs, Some TypeError)
      | Some dis \<Rightarrow>
          (let titles = map (\<lambda>x. trim (title x)) (Object_values dis);
               sv = build_service routeId c buffer activeRuns ever titles index d
           in departures_loop routeId c buffer activeRuns ever dp (Suc index) ds
                (AList.update (svc_id sv) sv svcs)))"

text \<open>
  Lines 38 to 79: what one iteration of the loop over the connections does to the shared
  state once both calls have returned. No \<^verbatim>\<open>await\<close> occurs in these lines.
\<close>

definition merge_connection ::
  "nat \<Rightarrow> connection \<Rightarrow> int \<Rightarrow> payload \<Rightarrow> payload \<Rightarrow> state \<Rightarrow> state \<times> error option" where
  "merge_connection routeId c buffer rp dp s =
     (let directionId = dir_id (forward_direction c);
          activeRuns = activeRuns_of rp directionId;
          ever = observe rp directionId (everActive s)
      in case departures dp of
           None \<Rightarrow> (s\<lparr>everActive := ever\<rparr>, None)
         | Some ds \<Rightarrow>
             (case departures_loop routeId c buffer activeRuns ever dp 0 ds (services s) of
                (svcs, err) \<Rightarrow> (\<lparr>services = svcs, everActive = ever\<rparr>, err)))"

text \<open>
  Lines 21 to 80: the connections in turn. A call that throws rejects the promise of
  \<^verbatim>\<open>checkRoutes\<close>: the function has no \<^verbatim>\<open>try\<close>, so the loop ends there, with the
  state as it is. The writes to the progress bar are left out; nothing reads them.
\<close>

fun checkRoutes_loop ::
  "string \<Rightarrow> network \<Rightarrow> int \<Rightarrow> (nat \<times> connection) list \<Rightarrow> state \<Rightarrow> state \<times> error option" where
  "checkRoutes_loop devid net buffer [] s = (s, None)"
| "checkRoutes_loop devid net buffer ((routeId, c) # rest) s =
     (case call devid net (runs_endpoint routeId c) [(''expand'', ''VehiclePosition'')] of
        Inl e \<Rightarrow> (s, Some e)
      | Inr rp \<Rightarrow>
          (case call devid net (departures_endpoint routeId c) (departures_params c) of
             Inl e \<Rightarrow> (s, Some e)
           | Inr dp \<Rightarrow>
               (case merge_connection routeId c buffer rp dp s of
                  (s', Some e) \<Rightarrow> (s', Some e)
                | (s', None) \<Rightarrow> checkRoutes_loop devid net buffer rest s')))"

definition default_buffer :: int where
  "default_buffer = 120"

definition checkRoutes ::
  "string \<Rightarrow> (nat \<times> connection) list \<Rightarrow> network \<Rightarrow> int \<Rightarrow> state \<Rightarrow> state \<times> error option" where
  "checkRoutes devid connections net buffer s =
     checkRoutes_loop devid net buffer (Object_entries connections) s"

subsection \<open>The catalog of \<^verbatim>\<open>data.js\<close>\<close>

text \<open>The object literal \<^verbatim>\<open>connections\<close>, its entries in the order of the file.\<close>

definition connections :: "(nat \<times> connection) list" where
  "connections =
   [(13067,
     \<lparr>conn_id = 13067, conn_type = 2,
      conn_name = ''Elwood - Monash University via Gardenvale & Ormond & Huntingdale'',
      conn_number = ''630'',
      forward_direction = \<lparr>dir_id = 188, origin = 22875, destination = 33430\<rparr>,
      reverse_direction = Some \<lparr>dir_id = 189, origin = 33430, destination = 18098\<rparr>,
      walking = [22875 \<mapsto> 571, 33430 \<mapsto> 430, 18098 \<mapsto> 617],
      conn_duration = \<lparr>dur_min = 480, dur_max = 960, dur_avg = 620\<rparr>\<rparr>),
    (13271,
     \<lparr>conn_id = 13271, conn_type = 2,
      conn_name = ''Oakleigh - Box Hill via Clayton & Monash University & Mt Waverley'',
      conn_number = ''733'',
      forward_direction = \<lparr>dir_id = 32, origin = 22833, destination = 33430\<rparr>,
      reverse_direction = Some \<lparr>dir_id = 184, origin = 33430, destination = 22833\<rparr>,
      walking = [22833 \<mapsto> 115, 33430 \<mapsto> 430],
      conn_duration = \<lparr>dur_min = 1200, dur_max = 1740, dur_avg = 1468\<rparr>\<rparr>),
    (14930,
     \<lparr>conn_id = 14930, conn_type = 2,
      conn_name = ''Ringwood - Chadstone SC via Vermont South & Glen Waverley & Oakleigh'',
      conn_number = ''742'',
      forward_direction = \<lparr>dir_id = 55, origin = 16339, destination = 13496\<rparr>,
      reverse_direction = Some \<lparr>dir_id = 181, origin = 13496, destination = 16339\<rparr>,
      walking = [16339 \<mapsto> 740, 13496 \<mapsto> 519],
      conn_duration = \<lparr>dur_min = 840, dur_max = 1080, dur_avg = 944\<rparr>\<rparr>),
    (13820,
     \<lparr>conn_id = 13820, conn_type = 2,
      conn_name = ''Dandenong - Chadstone via Princes Highway & Oakleigh'',
      conn_number = ''800'',
      forward_direction = \<lparr>dir_id = 260, origin = 10005, destination = 10016\<rparr>,
      reverse_direction = None,
      walking = [10005 \<mapsto> 588, 10016 \<mapsto> 553],
      conn_duration = \<lparr>dur_min = 660, dur_max = 1020, dur_avg = 786\<rparr>\<rparr>),
    (8924,
     \<lparr>conn_id = 8924, conn_type = 2,
      conn_name = ''Dandenong - Chadstone via Mulgrave & Oakleigh'',
      conn_number = ''802'',
      forward_direction = \<lparr>dir_id = 260, origin = 10005, destination = 33430\<rparr>,
      reverse_direction = None,
      walking = [10005 \<mapsto> 588, 33430 \<mapsto> 430],
      conn_duration = \<lparr>dur_min = 660, dur_max = 960, dur_avg = 802\<rparr>\<rparr>),
    (8934,
     \<lparr>conn_id = 8934, conn_type = 2,
      conn_name = ''Dandenong - Chadstone via Wheelers Hill & Oakleigh'',
      conn_number = ''804'',
      forward_direction = \<lparr>dir_id = 260, origin = 10005, destination = 33430\<rparr>,
      reverse_direction = None,
      walking = [10005 \<mapsto> 588, 33430 \<mapsto> 430],
      conn_duration = \<lparr>dur_min = 600, dur_max = 1020, dur_avg = 808\<rparr>\<rparr>),
    (8922,
     \<lparr>conn_id = 8922, conn_type = 2,
      conn_name = ''Dandenong - Chadstone via North Dandenong & Oakleigh'',
      conn_number = ''862'',
      forward_direction = \<lparr>dir_id = 260, origin = 10005, destination = 33430\<rparr>,
      reverse_direction = None,
      walking = [10005 \<mapsto> 588, 33430 \<mapsto> 430],
      conn_duration = \<lparr>dur_min = 600, dur_max = 960, dur_avg = 750\<rparr>\<rparr>),
    (12753,
     \<lparr>conn_id = 12753, conn_type = 2,
      conn_name = ''Stud Park SC (Rowville) - Caulfield via Monash University & Chadstone (SMARTBUS Service)'',
      conn_number = ''900'',
      forward_direction = \<lparr>dir_id = 293, origin = 16339, destination = 33430\<rparr>,
      reverse_direction = Some \<lparr>dir_id = 294, origin = 33430, destination = 16339\<rparr>,
      walking = [16339 \<mapsto> 740, 33430 \<mapsto> 430],
      conn_duration = \<lparr>dur_min = 600, dur_max = 1140, dur_avg = 858\<rparr>\<rparr>),
    (11,
     \<lparr>conn_id = 11, conn_type = 0,
      conn_name = ''Pakenham'',
      conn_number = ''Train'',
      forward_direction = \<lparr>dir_id = 10, origin = 1150, destination = 1099\<rparr>,
      reverse_direction = Some \<lparr>dir_id = 1, origin = 1099, destination = 1150\<rparr>,
      walking = [1150 \<mapsto> 821, 1099 \<mapsto> 430],
      conn_duration = \<lparr>dur_min = 747, dur_max = 1047, dur_avg = 751\<rparr>\<rparr>),
    (4,
     \<lparr>conn_id = 4, conn_type = 0,
      conn_name = ''Cranbourne'',
      conn_number = ''Train'',
      forward_direction = \<lparr>dir_id = 4, origin = 1150, destination = 1099\<rparr>,
      reverse_direction = Some \<lparr>dir_id = 1, origin = 1099, destination = 1150\<rparr>,
      walking = [1150 \<mapsto> 821, 1099 \<mapsto> 430],
      conn_duration = \<lparr>dur_min = 747, dur_max = 1047, dur_avg = 751\<rparr>\<rparr>)]"

section \<open>The renderer (\<^verbatim>\<open>updateTable\<close>)\<close>

text \<open>
  Line 88, the comparator \<^verbatim>\<open>(a, b) => a.arrive_by - b.arrive_by\<close>: the difference of
  the time values, \<^verbatim>\<open>NaN\<close> (\<open>None\<close>) when either date is invalid.
\<close>

definition comparator :: "service \<Rightarrow> service \<Rightarrow> int option" where
  "comparator a b =
     (case (arrive_by a, arrive_by b) of
        (Some x, Some y) \<Rightarrow> Some (x - y)
      | _ \<Rightarrow> None)"

text \<open>
  \<^verbatim>\<open>Array.prototype.sort\<close> is stable and reads a comparator result of \<^verbatim>\<open>NaN\<close> as
  \<open>0\<close>. Where the comparator is a consistent order every stable sort returns the same
  array; it is computed here by insertion, an element going before the first one it does
  not compare greater than.
\<close>

definition not_after :: "service \<Rightarrow> service \<Rightarrow> bool" where
  "not_after a b = (case comparator a b of None \<Rightarrow> True | Some v \<Rightarrow> v \<le> 0)"

fun insert_sorted :: "service \<Rightarrow> service list \<Rightarrow> service list" where
  "insert_sorted x [] = [x]"
| "insert_sorted x (y # ys) = (if not_after x y then x # y # ys else y # insert_sorted x ys)"

fun sort_services :: "service list \<Rightarrow> service list" where
  "sort_services [] = []"
| "sort_services (x # xs) = insert_sorted x (sort_services xs)"

text \<open>
  Lines 93 to 97, for one service and the clock reading \<open>now\<close> that \<^verbatim>\<open>new Date()\<close>
  returns in line 93: \<open>td\<close> is the time left in milliseconds, \<^verbatim>\<open>NaN\<close> for an invalid
  date; a comparison with \<^verbatim>\<open>NaN\<close> is false, so such a row is not skipped.
\<close>

definition td :: "int \<Rightarrow> service \<Rightarrow> int option" where
  "td now s = map_option (\<lambda>g. g - now) (get_going_by s)"

definition skipped :: "int \<Rightarrow> int \<Rightarrow> service \<Rightarrow> bool" where
  "skipped now buffer s = (case td now s of None \<Rightarrow> False | Some t \<Rightarrow> t < - buffer * 1000)"

text \<open>
  A rendered row: its service, the health symbol, the route cell (number and name of the
  connection) and the time left. The remaining cells format fields of the service.
\<close>

record row =
  row_service :: service
  healthCell :: "string option"
  routeCell :: "(string \<times> string) option"
  timerCell :: "int option"

text \<open>
  Lines 91 to 123, the loop over the sorted services. Line 93 is inside the loop: the clock
  is read anew in each iteration, before the test of line 94. \<open>clock k\<close> is the reading
  of line 93 in iteration \<open>k\<close>, counted from 0 over all sorted services, the skipped ones
  included. (Line 114 reads the clock once more for the arrival cell, which is not among
  the cells kept here.) Line 106 reads \<^verbatim>\<open>connections[service.route_id].number\<close>: for a
  route id that is not a key of the catalog this throws a TypeError, after the row and its
  health cell were inserted, and no further row is rendered.
\<close>

fun render ::
  "(nat \<times> connection) list \<Rightarrow> (nat \<Rightarrow> int) \<Rightarrow> int \<Rightarrow> nat \<Rightarrow> service list
     \<Rightarrow> row list \<times> error option" where
  "render cat clock buffer k [] = ([], None)"
| "render cat clock buffer k (s # ss) =
     (if skipped (clock k) buffer s then render cat clock buffer (Suc k) ss
      else
        (case map_of (fromEntries cat) (svc_route_id s) of
           None \<Rightarrow>
             ([\<lparr>row_service = s, healthCell = healthCell_text s, routeCell = None,
                timerCell = td (clock k) s\<rparr>], Some TypeError)
         | Some c \<Rightarrow>
             (case render cat clock buffer (Suc k) ss of
                (rows, e) \<Rightarrow>
                  (\<lparr>row_service = s, healthCell = healthCell_text s,
                    routeCell = Some (conn_number c, conn_name c),
                    timerCell = td (clock k) s\<rparr> # rows, e))))"

text \<open>
  \<^verbatim>\<open>updateTable\<close>: line 88 sorts the values of the table, then the loop runs from
  iteration 0. The function takes no time; \<open>clock\<close> stands for what the system clock
  returns during the call.
\<close>

definition updateTable ::
  "(nat \<times> connection) list \<Rightarrow> (nat \<Rightarrow> int) \<Rightarrow> int \<Rightarrow> (string \<times> service) list
     \<Rightarrow> row list \<times> error option" where
  "updateTable cat clock buffer svcs =
     render cat clock buffer 0 (sort_services (Object_values svcs))"

section \<open>The scheduler (lines 126 to 131)\<close>

text \<open>
  \<^verbatim>\<open>checkRoutes\<close> is an \<^verbatim>\<open>async\<close> function: an invocation runs until its next
  \<^verbatim>\<open>await\<close>, where it is suspended until the awaited call settles; meanwhile timer
  callbacks run. A suspended invocation is a task: it waits for the runs of the first
  remaining connection, or, holding the runs, for its departures.
\<close>

datatype task =
    AwaitRuns "(nat \<times> connection) list"
  | AwaitDepartures payload "(nat \<times> connection) list"

text \<open>
  The system: the two globals, the invocations of \<^verbatim>\<open>checkRoutes\<close> in flight, the rows in
  the table body, and the errors of promises that were rejected (nothing handles them).
\<close>

record system =
  shared :: state
  tasks :: "task list"
  table :: "row list"
  unhandled :: "error list"

text \<open>An invocation of \<^verbatim>\<open>checkRoutes(services)\<close> up to its first \<^verbatim>\<open>await\<close>.\<close>

definition start_refresh :: "(nat \<times> connection) list \<Rightarrow> task list" where
  "start_refresh cat = (case Object_entries cat of [] \<Rightarrow> [] | e # es \<Rightarrow> [AwaitRuns (e # es)])"

text \<open>
  A task resumed with the outcome of its pending call, up to its next \<^verbatim>\<open>await\<close> or
  its end: the new shared state, the task if it is suspended again, and the error if its
  promise is rejected.
\<close>

fun resume :: "int \<Rightarrow> task \<Rightarrow> fetch_outcome \<Rightarrow> state \<Rightarrow> state \<times> task option \<times> error option" where
  "resume buffer (AwaitRuns []) out s = (s, None, None)"
| "resume buffer (AwaitRuns ((routeId, c) # rest)) out s =
     (case settle_call out of
        Inl e \<Rightarrow> (s, None, Some e)
      | Inr rp \<Rightarrow> (s, Some (AwaitDepartures rp ((routeId, c) # rest)), None))"
| "resume buffer (AwaitDepartures rp []) out s = (s, None, None)"
| "resume buffer (AwaitDepartures rp ((routeId, c) # rest)) out s =
     (case settle_call out of
        Inl e \<Rightarrow> (s, None, Some e)
      | Inr dp \<Rightarrow>
          (case merge_connection routeId c buffer rp dp s of
             (s', Some e) \<Rightarrow> (s', None, Some e)
           | (s', None) \<Rightarrow> (s', (if rest = [] then None else Some (AwaitRuns rest)), None)))"

definition option_list :: "'a option \<Rightarrow> 'a list" where
  "option_list x = (case x of None \<Rightarrow> [] | Some y \<Rightarrow> [y])"

text \<open>
  Line 129 starts a refresh at once; lines 130 and 131 install the two interval timers.
\<close>

definition initial_system :: "(nat \<times> connection) list \<Rightarrow> system" where
  "initial_system cat =
     \<lparr>shared = initial_state, tasks = start_refresh cat, table = [], unhandled = []\<rparr>"

text \<open>
  One turn of the event loop: the 30 second timer calls \<^verbatim>\<open>checkRoutes(services)\<close>, the
  1 second timer calls \<^verbatim>\<open>updateTable(services)\<close> while the clock shows some readings
  \<open>clock\<close>, or the pending call of the task at position \<open>i\<close> settles with some outcome.
  Both callbacks run with the default buffer.
\<close>

inductive step :: "(nat \<times> connection) list \<Rightarrow> system \<Rightarrow> system \<Rightarrow> bool"
  for cat :: "(nat \<times> connection) list" where
  refresh_timer:
    "step cat sys (sys\<lparr>tasks := tasks sys @ start_refresh cat\<rparr>)"
| tick_timer:
    "updateTable cat clock default_buffer (services (shared sys)) = (rows, e)
      \<Longrightarrow> step cat sys (sys\<lparr>table := rows, unhandled := unhandled sys @ option_list e\<rparr>)"
| settled:
    "i < length (tasks sys)
      \<Longrightarrow> resume default_buffer (tasks sys ! i) out (shared sys) = (s', t', e)
      \<Longrightarrow> step cat sys
            (sys\<lparr>shared := s',
                 tasks := take i (tasks sys) @ option_list t' @ drop (Suc i) (tasks sys),
                 unhandled := unhandled sys @ option_list e\<rparr>)"

definition reachable :: "(nat \<times> connection) list \<Rightarrow> system \<Rightarrow> bool" where
  "reachable cat sys = (step cat)\<^sup>*\<^sup>* (initial_system cat) sys"

section \<open>Auxiliary notions for the properties\<close>

text \<open>Reading decimal digits back: the inverse of \<open>show_nat\<close>.\<close>

definition read_nat :: "string \<Rightarrow> nat" where
  "read_nat s = foldl (\<lambda>acc ch. 10 * acc + (of_char ch - 48)) 0 s"

text \<open>
  Names for what one poll of a connection works with: the departures of the payload (none
  when the key is absent), the trimmed disruption titles, the composite id of slot \<open>i\<close>,
  and the Service the poll builds for the departure \<open>d\<close> at slot \<open>i\<close> when the shared
  state is \<open>s\<close>.
\<close>

definition slots :: "payload \<Rightarrow> departure list" where
  "slots dp = (case departures dp of None \<Rightarrow> [] | Some ds \<Rightarrow> ds)"

definition titles_of :: "payload \<Rightarrow> string list" where
  "titles_of dp =
     (case disruptions dp of None \<Rightarrow> [] | Some dis \<Rightarrow> map (\<lambda>x. trim (title x)) (Object_values dis))"

definition slot_id :: "nat \<Rightarrow> connection \<Rightarrow> nat \<Rightarrow> string" where
  "slot_id routeId c i =
     idString routeId (dir_id (forward_direction c)) (origin (forward_direction c)) i"

definition built_service ::
  "nat \<Rightarrow> connection \<Rightarrow> int \<Rightarrow> payload \<Rightarrow> payload \<Rightarrow> state \<Rightarrow> nat \<Rightarrow> departure \<Rightarrow> service" where
  "built_service routeId c buffer rp dp s i d =
     build_service routeId c buffer
       (activeRuns_of rp (dir_id (forward_direction c)))
       (observe rp (dir_id (forward_direction c)) (everActive s))
       (titles_of dp) i d"

text \<open>
  Concrete inputs: the first connection of the catalog (route 630, key 13067), runs
  payloads in which run 950188 does or does not carry a vehicle position, and departures
  payloads with two, one and no departures. 1714550400000 is 2024-05-01T08:00:00Z.
\<close>

definition conn_630 :: connection where
  "conn_630 = snd (connections ! 0)"

definition runs_live :: payload where
  "runs_live =
     \<lparr>runs = Some [\<lparr>run_run_ref = Some ''950188'', run_direction_id = 188,
                     vehicle_position = Some VehiclePosition\<rparr>],
      departures = None, disruptions = None\<rparr>"

definition runs_idle :: payload where
  "runs_idle =
     \<lparr>runs = Some [\<lparr>run_run_ref = Some ''950188'', run_direction_id = 188,
                     vehicle_position = None\<rparr>],
      departures = None, disruptions = None\<rparr>"

definition dep_a :: departure where
  "dep_a = \<lparr>dep_run_ref = Some ''950188'', estimated_departure_utc = Some 1714550460000,
            scheduled_departure_utc = 1714550400000\<rparr>"

definition dep_b :: departure where
  "dep_b = \<lparr>dep_run_ref = Some ''950190'', estimated_departure_utc = None,
            scheduled_departure_utc = 1714551300000\<rparr>"

definition deps_two :: payload where
  "deps_two = \<lparr>runs = None, departures = Some [dep_a, dep_b], disruptions = Some []\<rparr>"

definition deps_one :: payload where
  "deps_one = \<lparr>runs = None, departures = Some [dep_a], disruptions = Some []\<rparr>"

definition deps_none :: payload where
  "deps_none = \<lparr>runs = None, departures = Some [], disruptions = Some []\<rparr>"

text \<open>The shared state after a first poll of route 630 that saw run 950188 moving.\<close>

definition after_first_poll :: state where
  "after_first_poll = fst (merge_connection 13067 conn_630 120 runs_live deps_two initial_state)"

text \<open>The second connection of the catalog (route 733, key 13271) and a state that holds one of its Services.\<close>

definition conn_733 :: connection where
  "conn_733 = snd (connections ! 1)"

definition table_733 :: state where
  "table_733 = fst (merge_connection 13271 conn_733 120 runs_idle deps_one initial_state)"

text \<open>
  Two systems: one refresh in flight that holds the runs of route 630 and waits for its
  departures, and the system after that call has returned one departure.
\<close>

definition sys_waiting :: system where
  "sys_waiting =
     \<lparr>shared = after_first_poll,
      tasks = [AwaitDepartures runs_idle [(13067, conn_630)]],
      table = [], unhandled = []\<rparr>"

definition sys_settled :: system where
  "sys_settled =
     \<lparr>shared = fst (merge_connection 13067 conn_630 default_buffer runs_idle deps_one after_first_poll),
      tasks = [],
      table = [], unhandled = []\<rparr>"

text \<open>Ascending order of two valid arrival instants.\<close>

definition arrive_le :: "service \<Rightarrow> service \<Rightarrow> bool" where
  "arrive_le a b = (case (arrive_by a, arrive_by b) of (Some x, Some y) \<Rightarrow> x \<le> y | _ \<Rightarrow> False)"

text \<open>
  The connections with the three smallest keys (the trains 4 and 11, and bus route 8922), a
  payload that holds one departure, and a network on which the departures call for
  route 11 is rejected and every other call is answered with that payload.
\<close>

definition conn_4 :: connection where
  "conn_4 = snd (connections ! 9)"

definition conn_11 :: connection where
  "conn_11 = snd (connections ! 8)"

definition conn_8922 :: connection where
  "conn_8922 = snd (connections ! 6)"

definition payload_ok :: payload where
  "payload_ok = \<lparr>runs = Some [], departures = Some [dep_a], disruptions = Some []\<rparr>"

definition net_11_down :: network where
  "net_11_down req =
     (if endpoint req = ''/v3/departures/route_type/0/stop/1150/route/11'' then Rejected
      else Response True ''OK'' (Some payload_ok))"

text \<open>The shared state once route 4 has been polled with that payload.\<close>

definition after_route_4 :: state where
  "after_route_4 = fst (merge_connection 4 conn_4 120 payload_ok payload_ok initial_state)"

text \<open>The system of the catalog after the refresh timer has fired once and no call has settled.\<close>

definition sys_overlap :: system where
  "sys_overlap =
     (initial_system connections)
       \<lparr>tasks := tasks (initial_system connections) @ start_refresh connections\<rparr>"

text \<open>
  A catalog as \<^verbatim>\<open>data.js\<close> writes it: every connection is stored under its own id and
  has walking times for the two stops of its forward direction. A Service that such a
  catalog gives rise to has valid deadlines and a route id that the renderer finds.
\<close>

definition wellformed_entry :: "nat \<times> connection \<Rightarrow> bool" where
  "wellformed_entry e =
     (conn_id (snd e) = fst e
      \<and> walking (snd e) (origin (forward_direction (snd e))) \<noteq> None
      \<and> walking (snd e) (destination (forward_direction (snd e))) \<noteq> None)"

definition wellformed_catalog :: "(nat \<times> connection) list \<Rightarrow> bool" where
  "wellformed_catalog cat = list_all wellformed_entry (Object_entries cat)"

definition renderable :: "(nat \<times> connection) list \<Rightarrow> service \<Rightarrow> bool" where
  "renderable cat sv =
     (get_going_by sv \<noteq> None \<and> arrive_by sv \<noteq> None
      \<and> map_of (fromEntries cat) (svc_route_id sv) \<noteq> None)"

text \<open>The connections a suspended invocation has still to poll.\<close>

fun task_entries :: "task \<Rightarrow> (nat \<times> connection) list" where
  "task_entries (AwaitRuns es) = es"
| "task_entries (AwaitDepartures rp es) = es"

text \<open>
  Inputs for the renderer. A poll of route 630 that returns departures at 08:20, 08:05 and
  08:10, in this order, and the three Services it builds; a clock that advances by one
  millisecond from one iteration of the loop to the next, starting at 08:03:20.
\<close>

definition dep_05 :: departure where
  "dep_05 = \<lparr>dep_run_ref = Some ''950191'', estimated_departure_utc = None,
             scheduled_departure_utc = 1714550700000\<rparr>"

definition dep_10 :: departure where
  "dep_10 = \<lparr>dep_run_ref = Some ''950192'', estimated_departure_utc = None,
             scheduled_departure_utc = 1714551000000\<rparr>"

definition dep_20 :: departure where
  "dep_20 = \<lparr>dep_run_ref = Some ''950193'', estimated_departure_utc = None,
             scheduled_departure_utc = 1714551600000\<rparr>"

definition deps_three :: payload where
  "deps_three = \<lparr>runs = None, departures = Some [dep_20, dep_05, dep_10], disruptions = Some []\<rparr>"

definition table_three :: state where
  "table_three = fst (merge_connection 13067 conn_630 120 runs_live deps_three initial_state)"

definition sv_20 :: service where
  "sv_20 = built_service 13067 conn_630 120 runs_live deps_three initial_state 0 dep_20"

definition sv_05 :: service where
  "sv_05 = built_service 13067 conn_630 120 runs_live deps_three initial_state 1 dep_05"

definition sv_10 :: service where
  "sv_10 = built_service 13067 conn_630 120 runs_live deps_three initial_state 2 dep_10"

definition advancing_clock :: "nat \<Rightarrow> int" where
  "advancing_clock k = 1714550200000 + int k"

text \<open>
  A poll that returns two departures of the same instant, the two Services it builds, and
  a clock that advances by one millisecond per iteration, starting 120 seconds after their
  common time to get going.
\<close>

definition deps_same :: payload where
  "deps_same = \<lparr>runs = None, departures = Some [dep_a, dep_a], disruptions = Some []\<rparr>"

definition table_same :: state where
  "table_same = fst (merge_connection 13067 conn_630 120 runs_live deps_same initial_state)"

definition sv_first :: service where
  "sv_first = built_service 13067 conn_630 120 runs_live deps_same initial_state 0 dep_a"

definition sv_second :: service where
  "sv_second = built_service 13067 conn_630 120 runs_live deps_same initial_state 1 dep_a"

definition closing_clock :: "nat \<Rightarrow> int" where
  "closing_clock k = 1714549889000 + int k"

section \<open>Properties\<close>

subsection \<open>Health score\<close>

lemma healthScore_count:
  "healthScore s = length (filter id (health_values (svc_health s)))"
  by (simp add: healthScore_def health_values_def)

text \<open>
  Claim C10. The health score the renderer computes for a service is the number of true
  health flags; it lies between 0 and 3, so the legend lookup is in bounds and the health
  cell shows one of the four symbols of the legend.
\<close>

theorem healthScore_in_legend:
  "0 \<le> healthScore s \<and> healthScore s \<le> 3
   \<and> healthScore s = length (filter id (health_values (svc_health s)))
   \<and> healthScore s < length legend
   \<and> healthCell_text s = Some (legend ! healthScore s)
   \<and> legend ! healthScore s \<in> set legend"
proof -
  have le: "healthScore s \<le> 3"
    by (simp add: healthScore_def health_values_def)
  have len: "length legend = 4"
    by (simp add: legend_def)
  have cell: "healthCell_text s = Some (legend ! healthScore s)"
    using le len by (simp add: healthCell_text_def legend_at_def)
  have mem: "legend ! healthScore s \<in> set legend"
    using le len by (simp add: nth_mem)
  from le len cell mem healthScore_count [of s] show ?thesis by simp
qed

subsection \<open>Composite ids\<close>

lemma of_char_digit_char: "d < 10 \<Longrightarrow> (of_char (digit_char d) :: nat) = 48 + d"
  by (simp add: digit_char_def)

lemma read_nat_show_nat: "read_nat (show_nat n) = n"
proof (induction n rule: show_nat.induct)
  case (1 n)
  show ?case
  proof (cases "n < 10")
    case True
    then show ?thesis
      by (subst show_nat.simps) (simp add: read_nat_def of_char_digit_char)
  next
    case False
    with 1 have ih: "read_nat (show_nat (n div 10)) = n div 10" by simp
    have "read_nat (show_nat n) = 10 * read_nat (show_nat (n div 10)) + n mod 10"
      using False by (subst show_nat.simps) (simp add: read_nat_def of_char_digit_char)
    with ih show ?thesis by simp
  qed
qed

lemma show_nat_inj: "show_nat a = show_nat b \<Longrightarrow> a = b"
  by (metis read_nat_show_nat)

lemma digit_char_not_dash: "d < 10 \<Longrightarrow> digit_char d \<noteq> CHR ''-''"
proof
  assume d: "d < 10" and eq: "digit_char d = CHR ''-''"
  from eq have "(of_char (digit_char d) :: nat) = of_char CHR ''-''" by simp
  with d show False by (simp add: of_char_digit_char)
qed

lemma show_nat_no_dash: "CHR ''-'' \<notin> set (show_nat n)"
proof (induction n rule: show_nat.induct)
  case (1 n)
  show ?case
  proof (cases "n < 10")
    case True
    then show ?thesis
      using digit_char_not_dash [of n] by (subst show_nat.simps) auto
  next
    case False
    with 1 have "CHR ''-'' \<notin> set (show_nat (n div 10))" by simp
    moreover have "digit_char (n mod 10) \<noteq> CHR ''-''"
      by (rule digit_char_not_dash) simp
    ultimately show ?thesis
      using False by (subst show_nat.simps) auto
  qed
qed

lemma split_at_dash:
  assumes "CHR ''-'' \<notin> set a" and "CHR ''-'' \<notin> set a'"
    and "a @ CHR ''-'' # b = a' @ CHR ''-'' # b'"
  shows "a = a' \<and> b = b'"
proof -
  have ta: "takeWhile (\<lambda>x. x \<noteq> CHR ''-'') (a @ CHR ''-'' # b) = a"
    using assms(1) by (auto simp add: takeWhile_tail)
  have ta': "takeWhile (\<lambda>x. x \<noteq> CHR ''-'') (a' @ CHR ''-'' # b') = a'"
    using assms(2) by (auto simp add: takeWhile_tail)
  from ta ta' assms(3) have "a = a'" by simp
  with assms(3) show ?thesis by simp
qed

lemma idString_inj:
  assumes "idString r d s i = idString r' d' s' i'"
  shows "r = r' \<and> d = d' \<and> s = s' \<and> i = i'"
proof -
  from assms have e1: "show_nat r @ CHR ''-'' # (show_nat d @ ''-'' @ show_nat s @ ''-'' @ show_nat i)
      = show_nat r' @ CHR ''-'' # (show_nat d' @ ''-'' @ show_nat s' @ ''-'' @ show_nat i')"
    by (simp add: idString_def)
  from split_at_dash [OF show_nat_no_dash show_nat_no_dash e1]
  have r: "show_nat r = show_nat r'"
    and e2: "show_nat d @ CHR ''-'' # (show_nat s @ ''-'' @ show_nat i)
      = show_nat d' @ CHR ''-'' # (show_nat s' @ ''-'' @ show_nat i')"
    by simp_all
  from split_at_dash [OF show_nat_no_dash show_nat_no_dash e2]
  have d: "show_nat d = show_nat d'"
    and e3: "show_nat s @ CHR ''-'' # show_nat i = show_nat s' @ CHR ''-'' # show_nat i'"
    by simp_all
  from split_at_dash [OF show_nat_no_dash show_nat_no_dash e3]
  have s: "show_nat s = show_nat s'" and i: "show_nat i = show_nat i'"
    by simp_all
  from r d s i show ?thesis by (simp add: show_nat_inj)
qed

subsection \<open>The loop over the departures\<close>

lemma svc_id_build_service:
  "svc_id (build_service r c b ar ev ts i d) = slot_id r c i"
  by (simp add: build_service_def slot_id_def Let_def)

lemma slot_id_inj: "slot_id r c i = slot_id r c j \<Longrightarrow> i = j"
  unfolding slot_id_def by (drule idString_inj) simp

lemma departures_loop_no_error:
  "disruptions dp = Some dis \<Longrightarrow> snd (departures_loop r c b ar ev dp index ds svcs) = None"
  by (induction ds arbitrary: index svcs) (simp_all add: Let_def)

lemma departures_loop_TypeError:
  "disruptions dp = None \<Longrightarrow> ds \<noteq> []
    \<Longrightarrow> departures_loop r c b ar ev dp index ds svcs = (svcs, Some TypeError)"
  by (cases ds) simp_all

lemma departures_loop_other:
  "(\<And>j. index \<le> j \<Longrightarrow> j < index + length ds \<Longrightarrow> k \<noteq> slot_id r c j)
    \<Longrightarrow> map_of (fst (departures_loop r c b ar ev dp index ds svcs)) k = map_of svcs k"
proof (induction ds arbitrary: index svcs)
  case Nil
  show ?case by simp
next
  case (Cons d ds)
  show ?case
  proof (cases "disruptions dp")
    case None
    then show ?thesis by simp
  next
    case (Some dis)
    let ?sv = "build_service r c b ar ev (map (\<lambda>x. trim (title x)) (Object_values dis)) index d"
    have k: "k \<noteq> slot_id r c index"
      using Cons.prems [of index] by simp
    have "map_of (fst (departures_loop r c b ar ev dp (Suc index) ds
            (AList.update (svc_id ?sv) ?sv svcs))) k
          = map_of (AList.update (svc_id ?sv) ?sv svcs) k"
      by (rule Cons.IH) (use Cons.prems in simp)
    also have "\<dots> = map_of svcs k"
      using k by (simp add: update_conv' svc_id_build_service)
    finally show ?thesis
      using Some by (simp add: Let_def)
  qed
qed

lemma departures_loop_slot:
  "disruptions dp = Some dis \<Longrightarrow> i < length ds
    \<Longrightarrow> map_of (fst (departures_loop r c b ar ev dp index ds svcs)) (slot_id r c (index + i))
        = Some (build_service r c b ar ev (titles_of dp) (index + i) (ds ! i))"
proof (induction ds arbitrary: index svcs i)
  case Nil
  then show ?case by simp
next
  case (Cons d ds)
  let ?sv = "build_service r c b ar ev (titles_of dp) index d"
  let ?svcs = "AList.update (svc_id ?sv) ?sv svcs"
  have unfold: "departures_loop r c b ar ev dp index (d # ds) svcs
      = departures_loop r c b ar ev dp (Suc index) ds ?svcs"
    using Cons.prems(1) by (simp add: Let_def titles_of_def)
  show ?case
  proof (cases i)
    case 0
    have "map_of (fst (departures_loop r c b ar ev dp (Suc index) ds ?svcs)) (slot_id r c index)
        = map_of ?svcs (slot_id r c index)"
    proof (rule departures_loop_other)
      fix j assume "Suc index \<le> j"
      then have "j \<noteq> index" by simp
      then show "slot_id r c index \<noteq> slot_id r c j"
        using slot_id_inj by blast
    qed
    also have "\<dots> = Some ?sv"
      by (simp add: update_conv' svc_id_build_service)
    finally show ?thesis
      using 0 unfold by simp
  next
    case (Suc i')
    with Cons.prems have "i' < length ds" by simp
    from Cons.IH [OF Cons.prems(1) this, of "Suc index" ?svcs]
    show ?thesis
      using Suc unfold by simp
  qed
qed

lemma departures_loop_distinct:
  "distinct (map fst svcs)
    \<Longrightarrow> distinct (map fst (fst (departures_loop r c b ar ev dp index ds svcs)))"
  by (induction ds arbitrary: index svcs)
     (simp_all add: Let_def distinct_update split: option.splits)

subsection \<open>One poll of one connection\<close>

lemma merge_connection_everActive:
  "everActive (fst (merge_connection r c b rp dp s))
     = observe rp (dir_id (forward_direction c)) (everActive s)"
  by (simp add: merge_connection_def Let_def case_prod_beta split: option.splits)

lemma merge_connection_slot:
  assumes "disruptions dp = Some dis" and "i < length (slots dp)"
  shows "map_of (services (fst (merge_connection r c b rp dp s))) (slot_id r c i)
           = Some (built_service r c b rp dp s i (slots dp ! i))"
proof -
  from assms(2) obtain ds where ds: "departures dp = Some ds" and i: "i < length ds"
    by (auto simp: slots_def split: option.splits)
  from departures_loop_slot [OF assms(1) i, of r c b _ _ 0 "services s"] ds
  show ?thesis
    by (simp add: merge_connection_def Let_def built_service_def slots_def case_prod_beta)
qed

lemma merge_connection_other:
  assumes "\<And>i. i < length (slots dp) \<Longrightarrow> k \<noteq> slot_id r c i"
  shows "map_of (services (fst (merge_connection r c b rp dp s))) k = map_of (services s) k"
proof (cases "departures dp")
  case None
  then show ?thesis by (simp add: merge_connection_def Let_def)
next
  case (Some ds)
  have "map_of (fst (departures_loop r c b ar ev dp 0 ds (services s))) k = map_of (services s) k"
    for ar ev
    by (rule departures_loop_other) (use assms Some in \<open>simp add: slots_def\<close>)
  with Some show ?thesis
    by (simp add: merge_connection_def Let_def case_prod_beta)
qed

lemma merge_connection_no_error:
  "disruptions dp = Some dis \<Longrightarrow> snd (merge_connection r c b rp dp s) = None"
  using departures_loop_no_error [of dp dis r c b _ _ 0 _ "services s"]
  by (simp add: merge_connection_def Let_def case_prod_beta split: option.splits)

lemma merge_connection_distinct:
  "distinct (map fst (services s))
    \<Longrightarrow> distinct (map fst (services (fst (merge_connection r c b rp dp s))))"
  using departures_loop_distinct [of "services s" r c b _ _ dp 0]
  by (simp add: merge_connection_def Let_def case_prod_beta split: option.splits)

lemma slot_id_prefix: "slot_id r c i = show_nat r @ ''-'' @ drop (length (show_nat r) + 1) (slot_id r c i)"
  by (simp add: slot_id_def idString_def)

lemma slot_id_other_route: "r' \<noteq> r \<Longrightarrow> idString r' d' st' i' \<noteq> slot_id r c i"
  unfolding slot_id_def using idString_inj by blast

subsection \<open>Concrete inputs\<close>

lemma conn_630_eq:
  "conn_630 = \<lparr>conn_id = 13067, conn_type = 2,
      conn_name = ''Elwood - Monash University via Gardenvale & Ormond & Huntingdale'',
      conn_number = ''630'',
      forward_direction = \<lparr>dir_id = 188, origin = 22875, destination = 33430\<rparr>,
      reverse_direction = Some \<lparr>dir_id = 189, origin = 33430, destination = 18098\<rparr>,
      walking = [22875 \<mapsto> 571, 33430 \<mapsto> 430, 18098 \<mapsto> 617],
      conn_duration = \<lparr>dur_min = 480, dur_max = 960, dur_avg = 620\<rparr>\<rparr>"
  by (simp add: conn_630_def connections_def)

lemma slots_deps_two: "slots deps_two = [dep_a, dep_b]"
  by (simp add: slots_def deps_two_def)

lemma slots_deps_one: "slots deps_one = [dep_a]"
  by (simp add: slots_def deps_one_def)

lemma disruptions_deps_two: "disruptions deps_two = Some []"
  by (simp add: deps_two_def)

lemma disruptions_deps_one: "disruptions deps_one = Some []"
  by (simp add: deps_one_def)

lemma digit_chars:
  "digit_char 0 = CHR ''0''" "digit_char 1 = CHR ''1''" "digit_char 2 = CHR ''2''"
  "digit_char 3 = CHR ''3''" "digit_char 4 = CHR ''4''" "digit_char 5 = CHR ''5''"
  "digit_char 6 = CHR ''6''" "digit_char 7 = CHR ''7''" "digit_char 8 = CHR ''8''"
  "digit_char 9 = CHR ''9''" "digit_char (Suc 0) = CHR ''1''"
  by (simp_all add: digit_char_def char_of_def bit_0)

lemma show_nat_values:
  "show_nat 13067 = ''13067''" "show_nat 188 = ''188''" "show_nat 22875 = ''22875''"
  "show_nat 0 = ''0''" "show_nat 1 = ''1''" "show_nat (Suc 0) = ''1''"
  by (simp_all add: show_nat.simps digit_chars)

lemma slot_1_of_630: "slot_id 13067 conn_630 1 = ''13067-188-22875-1''"
  by (simp add: slot_id_def idString_def conn_630_eq show_nat_values)

lemma slot_0_of_630: "slot_id 13067 conn_630 0 = ''13067-188-22875-0''"
  by (simp add: slot_id_def idString_def conn_630_eq show_nat_values)

lemma everActive_after_first_poll: "everActive after_first_poll = {''950188''}"
  by (simp add: after_first_poll_def merge_connection_everActive observe_def runs_live_def
      activeRuns_of_def fromEntries_def Object_keys_def property_key_def initial_state_def
      conn_630_eq)

lemma stale_slot_of_630:
  "map_of (services after_first_poll) (slot_id 13067 conn_630 1)
     = Some (built_service 13067 conn_630 120 runs_live deps_two initial_state 1 dep_b)"
proof -
  have "1 < length (slots deps_two)" by (simp add: slots_deps_two)
  from merge_connection_slot [OF disruptions_deps_two this, of 13067 conn_630 120 runs_live initial_state]
  have "map_of (services after_first_poll) (slot_id 13067 conn_630 1)
     = Some (built_service 13067 conn_630 120 runs_live deps_two initial_state 1 (slots deps_two ! 1))"
    unfolding after_first_poll_def .
  moreover have "slots deps_two ! 1 = dep_b" by (simp add: slots_deps_two)
  ultimately show ?thesis by (simp only:)
qed

subsection \<open>What a poll writes\<close>

text \<open>
  Claim C1, as amended. A poll of a connection stores, for each departure at index \<open>i\<close> of
  this poll, the freshly built Service under the composite id of slot \<open>i\<close>, and leaves
  every other entry of the table as it was. Nothing is removed: an entry of the
  connection's own slot range at an index this poll did not return stays in the table.
\<close>

theorem poll_overwrites_returned_slots:
  assumes "disruptions dp = Some dis"
  shows "(\<forall>i<length (slots dp).
            map_of (services (fst (merge_connection r c b rp dp s))) (slot_id r c i)
              = Some (built_service r c b rp dp s i (slots dp ! i)))
       \<and> (\<forall>k. (\<forall>i<length (slots dp). k \<noteq> slot_id r c i)
              \<longrightarrow> map_of (services (fst (merge_connection r c b rp dp s))) k
                    = map_of (services s) k)
       \<and> (\<forall>j\<ge>length (slots dp).
              map_of (services (fst (merge_connection r c b rp dp s))) (slot_id r c j)
                = map_of (services s) (slot_id r c j))"
proof (intro conjI allI impI)
  fix i assume "i < length (slots dp)"
  with assms show "map_of (services (fst (merge_connection r c b rp dp s))) (slot_id r c i)
      = Some (built_service r c b rp dp s i (slots dp ! i))"
    by (rule merge_connection_slot)
next
  fix k
  assume other: "\<forall>i<length (slots dp). k \<noteq> slot_id r c i"
  show "map_of (services (fst (merge_connection r c b rp dp s))) k = map_of (services s) k"
    by (rule merge_connection_other) (use other in simp)
next
  fix j assume j: "length (slots dp) \<le> j"
  show "map_of (services (fst (merge_connection r c b rp dp s))) (slot_id r c j)
      = map_of (services s) (slot_id r c j)"
  proof (rule merge_connection_other)
    fix i assume "i < length (slots dp)"
    with j have "j \<noteq> i" by simp
    then show "slot_id r c j \<noteq> slot_id r c i"
      using slot_id_inj by blast
  qed
qed

theorem poll_overwrites_returned_slots_witness:
  "disruptions deps_one = Some []
   \<and> map_of (services (fst (merge_connection 13067 conn_630 120 runs_idle deps_one after_first_poll)))
        (slot_id 13067 conn_630 0)
       = Some (built_service 13067 conn_630 120 runs_idle deps_one after_first_poll 0 dep_a)
   \<and> map_of (services (fst (merge_connection 13067 conn_630 120 runs_idle deps_one after_first_poll)))
        (slot_id 13067 conn_630 3)
       = map_of (services after_first_poll) (slot_id 13067 conn_630 3)"
proof -
  note T = poll_overwrites_returned_slots [OF disruptions_deps_one,
      of 13067 conn_630 120 runs_idle after_first_poll]
  have len: "length (slots deps_one) = 1"
    by (simp add: slots_deps_one)
  have nth: "slots deps_one ! 0 = dep_a"
    by (simp add: slots_deps_one)
  have pos: "0 < length (slots deps_one)"
    by (simp add: slots_deps_one)
  have le: "length (slots deps_one) \<le> 3"
    by (simp add: slots_deps_one)
  have a: "map_of (services (fst (merge_connection 13067 conn_630 120 runs_idle deps_one after_first_poll)))
        (slot_id 13067 conn_630 0)
       = Some (built_service 13067 conn_630 120 runs_idle deps_one after_first_poll 0 dep_a)"
    using T [THEN conjunct1, rule_format, OF pos] unfolding nth .
  have b: "map_of (services (fst (merge_connection 13067 conn_630 120 runs_idle deps_one after_first_poll)))
        (slot_id 13067 conn_630 3)
       = map_of (services after_first_poll) (slot_id 13067 conn_630 3)"
    using T [THEN conjunct2, THEN conjunct2, rule_format, OF le] .
  show ?thesis
    by (rule conjI [OF disruptions_deps_one conjI [OF a b]])
qed

theorem stale_slot_counterexample:
  "length (slots deps_one) = 1
   \<and> map_of (services after_first_poll) ''13067-188-22875-1''
       = Some (built_service 13067 conn_630 120 runs_live deps_two initial_state 1 dep_b)
   \<and> map_of (services (fst (merge_connection 13067 conn_630 120 runs_live deps_one after_first_poll)))
        ''13067-188-22875-1''
       = Some (built_service 13067 conn_630 120 runs_live deps_two initial_state 1 dep_b)"
proof -
  have len: "length (slots deps_one) = 1"
    by (simp add: slots_deps_one)
  have "map_of (services (fst (merge_connection 13067 conn_630 120 runs_live deps_one after_first_poll)))
          (slot_id 13067 conn_630 1)
        = map_of (services after_first_poll) (slot_id 13067 conn_630 1)"
  proof (rule merge_connection_other)
    fix i assume "i < length (slots deps_one)"
    then have i: "i = 0" by (simp add: slots_deps_one)
    show "slot_id 13067 conn_630 1 \<noteq> slot_id 13067 conn_630 i"
    proof
      assume "slot_id 13067 conn_630 1 = slot_id 13067 conn_630 i"
      then have "1 = i" by (rule slot_id_inj)
      with i show False by simp
    qed
  qed
  also note stale_slot_of_630
  finally have now: "map_of (services (fst (merge_connection 13067 conn_630 120 runs_live deps_one after_first_poll)))
          (slot_id 13067 conn_630 1)
        = Some (built_service 13067 conn_630 120 runs_live deps_two initial_state 1 dep_b)" .
  show ?thesis
    by (rule conjI [OF len conjI [OF stale_slot_of_630 [unfolded slot_1_of_630]
          now [unfolded slot_1_of_630]]])
qed

subsection \<open>Deadlines\<close>

lemma build_service_deadlines:
  assumes "walking c (origin (forward_direction c)) = Some wb"
    and "walking c (destination (forward_direction c)) = Some wa"
  shows "get_going_by (build_service r c b ar ev ts i d) = Some (departureTime d - wb * 1000 - b * 1000)"
    and "arrive_by (build_service r c b ar ev ts i d)
           = Some (departureTime d + dur_avg (conn_duration c) * 1000 + wa * 1000)"
  using assms by (simp_all add: build_service_def Let_def)

lemma walking_conn_630:
  "walking conn_630 (origin (forward_direction conn_630)) = Some 571"
  "walking conn_630 (destination (forward_direction conn_630)) = Some 430"
  "dur_avg (conn_duration conn_630) = 620"
  by (simp_all add: conn_630_eq)

lemma departureTime_dep_b: "departureTime dep_b = 1714551300000"
  by (simp add: departureTime_def dep_b_def)

text \<open>
  Claim C5. The Service stored for the departure at slot \<open>i\<close> has
  \<open>getGoingBy = departureTime - walkBefore - buffer\<close> and
  \<open>arriveBy = departureTime + avgDuration + walkAfter\<close>, the seconds of the catalog and of
  the buffer converted to milliseconds, where \<open>departureTime\<close> is the estimated instant
  when there is one and the scheduled instant otherwise. A departure without an estimate
  raises no error.
\<close>

theorem deadlines_of_stored_service:
  assumes "disruptions dp = Some dis" and "i < length (slots dp)"
    and "walking c (origin (forward_direction c)) = Some walkBeforeSeconds"
    and "walking c (destination (forward_direction c)) = Some walkAfterSeconds"
  shows "\<exists>sv. map_of (services (fst (merge_connection r c bufferSeconds rp dp s))) (slot_id r c i)
                = Some sv
          \<and> get_going_by sv
                = Some (departureTime (slots dp ! i) - walkBeforeSeconds * 1000 - bufferSeconds * 1000)
          \<and> arrive_by sv
                = Some (departureTime (slots dp ! i) + dur_avg (conn_duration c) * 1000
                          + walkAfterSeconds * 1000)
          \<and> departureTime (slots dp ! i)
                = (case estimated_departure_utc (slots dp ! i) of
                     Some e \<Rightarrow> e
                   | None \<Rightarrow> scheduled_departure_utc (slots dp ! i))
          \<and> snd (merge_connection r c bufferSeconds rp dp s) = None"
proof -
  let ?sv = "built_service r c bufferSeconds rp dp s i (slots dp ! i)"
  have stored: "map_of (services (fst (merge_connection r c bufferSeconds rp dp s))) (slot_id r c i)
      = Some ?sv"
    using assms(1,2) by (rule merge_connection_slot)
  have gg: "get_going_by ?sv
      = Some (departureTime (slots dp ! i) - walkBeforeSeconds * 1000 - bufferSeconds * 1000)"
    unfolding built_service_def using assms(3,4) by (rule build_service_deadlines)
  have ab: "arrive_by ?sv
      = Some (departureTime (slots dp ! i) + dur_avg (conn_duration c) * 1000 + walkAfterSeconds * 1000)"
    unfolding built_service_def using assms(3,4) by (rule build_service_deadlines)
  have dt: "departureTime (slots dp ! i)
      = (case estimated_departure_utc (slots dp ! i) of
           Some e \<Rightarrow> e | None \<Rightarrow> scheduled_departure_utc (slots dp ! i))"
    by (simp add: departureTime_def)
  have ok: "snd (merge_connection r c bufferSeconds rp dp s) = None"
    using assms(1) by (rule merge_connection_no_error)
  from stored gg ab dt ok show ?thesis by blast
qed

theorem deadlines_of_stored_service_witness:
  "disruptions deps_two = Some [] \<and> 1 < length (slots deps_two)
   \<and> walking conn_630 (origin (forward_direction conn_630)) = Some 571
   \<and> walking conn_630 (destination (forward_direction conn_630)) = Some 430
   \<and> estimated_departure_utc (slots deps_two ! 1) = None
   \<and> (\<exists>sv. map_of (services (fst (merge_connection 13067 conn_630 120 runs_live deps_two initial_state)))
               (slot_id 13067 conn_630 1) = Some sv
          \<and> get_going_by sv = Some 1714550609000
          \<and> arrive_by sv = Some 1714552350000)"
proof -
  have len: "1 < length (slots deps_two)"
    by (simp add: slots_deps_two)
  have nth: "slots deps_two ! 1 = dep_b"
    by (simp add: slots_deps_two)
  have noest: "estimated_departure_utc (slots deps_two ! 1) = None"
    unfolding nth by (simp add: dep_b_def)
  from deadlines_of_stored_service [OF disruptions_deps_two len walking_conn_630(1,2),
      of 13067 120 runs_live initial_state]
  obtain sv where
    sv: "map_of (services (fst (merge_connection 13067 conn_630 120 runs_live deps_two initial_state)))
               (slot_id 13067 conn_630 1) = Some sv"
    and gg: "get_going_by sv = Some (departureTime (slots deps_two ! 1) - 571 * 1000 - 120 * 1000)"
    and ab: "arrive_by sv = Some (departureTime (slots deps_two ! 1)
               + dur_avg (conn_duration conn_630) * 1000 + 430 * 1000)"
    by blast
  from gg have gg': "get_going_by sv = Some 1714550609000"
    unfolding nth departureTime_dep_b by simp
  from ab have ab': "arrive_by sv = Some 1714552350000"
    unfolding nth departureTime_dep_b walking_conn_630 by simp
  from sv gg' ab' have "\<exists>sv. map_of (services (fst (merge_connection 13067 conn_630 120 runs_live deps_two initial_state)))
               (slot_id 13067 conn_630 1) = Some sv
          \<and> get_going_by sv = Some 1714550609000
          \<and> arrive_by sv = Some 1714552350000"
    by (intro exI [of _ sv] conjI)
  with disruptions_deps_two len walking_conn_630(1,2) noest show ?thesis
    by (intro conjI)
qed

subsection \<open>Active runs and the run flag\<close>

lemma keys_foldl_update:
  "fst ` set (foldl (\<lambda>obj (k, v). AList.update k v obj) acc kvs) = fst ` set acc \<union> fst ` set kvs"
proof (induction kvs arbitrary: acc)
  case Nil
  show ?case by simp
next
  case (Cons kv kvs)
  obtain k v where kv: "kv = (k, v)" by (cases kv)
  show ?case
    unfolding kv by (simp add: Cons.IH dom_update Un_assoc)
qed

lemma set_keys_fromEntries: "set (Object_keys (fromEntries kvs)) = fst ` set kvs"
  using keys_foldl_update [of "[]" kvs] by (simp add: Object_keys_def fromEntries_def)

lemma distinct_keys_foldl_update:
  "distinct (map fst acc)
    \<Longrightarrow> distinct (map fst (foldl (\<lambda>obj (k, v). AList.update k v obj) acc kvs))"
proof (induction kvs arbitrary: acc)
  case Nil
  then show ?case by simp
next
  case (Cons kv kvs)
  obtain k v where kv: "kv = (k, v)" by (cases kv)
  from Cons.prems have "distinct (map fst (AList.update k v acc))"
    by (rule distinct_update)
  then show ?case
    unfolding kv by (simp add: Cons.IH)
qed

lemma distinct_keys_fromEntries: "distinct (map fst (fromEntries kvs))"
  using distinct_keys_foldl_update [of "[]" kvs] by (simp add: fromEntries_def)

lemma distinct_keys_Object_entries: "distinct (map fst (Object_entries lit))"
proof -
  have "distinct (map fst (sort_key fst xs)) = distinct (map fst xs)" for xs :: "(nat \<times> 'a) list"
    by (simp add: distinct_map)
  then show ?thesis
    by (simp add: Object_entries_def distinct_keys_fromEntries)
qed

lemma keys_activeRuns_of:
  "set (Object_keys (activeRuns_of rp did))
     = {property_key (run_run_ref x) | x.
          x \<in> set (case runs rp of None \<Rightarrow> [] | Some rs \<Rightarrow> rs)
          \<and> vehicle_position x \<noteq> None \<and> run_direction_id x = did}"
proof (cases "runs rp")
  case None
  then show ?thesis by (simp add: activeRuns_of_def Object_keys_def)
next
  case (Some rs)
  then have "set (Object_keys (activeRuns_of rp did))
      = (\<lambda>x. property_key (run_run_ref x))
          ` {x \<in> set rs. vehicle_position x \<noteq> None \<and> run_direction_id x = did}"
    by (simp add: activeRuns_of_def set_keys_fromEntries image_image)
  with Some show ?thesis by auto
qed

lemma observe_eq: "observe rp did ev = set (Object_keys (activeRuns_of rp did)) \<union> ev"
  by (cases "runs rp") (simp_all add: observe_def activeRuns_of_def Object_keys_def)

lemma observe_mono: "ev \<subseteq> observe rp did ev"
  by (auto simp: observe_eq)

lemma run_active_build_service:
  "run_active (svc_health (build_service r c b ar ev ts i d)) = has ev (dep_run_ref d)"
  by (simp add: build_service_def Let_def)

lemma svc_run_ref_build_service:
  "svc_run_ref (build_service r c b ar ev ts i d) = dep_run_ref d"
  by (simp add: build_service_def Let_def)

lemma has_Un: "has (A \<union> B) ref \<longleftrightarrow> has A ref \<or> has B ref"
  by (cases ref) (simp_all add: has_def)

lemma has_iff: "has A ref \<longleftrightarrow> (\<exists>x. ref = Some x \<and> x \<in> A)"
  by (cases ref) (simp_all add: has_def)

text \<open>
  Claim C3, as amended. The run flag of the Service built for a departure is true exactly
  when the departure's run identifier is in the ever-active set as it stands after this
  poll's runs were added: the identifier is among this poll's active runs (runs of the
  forward direction with a vehicle position), or it was in the ever-active set before the
  poll.
\<close>

theorem runActive_iff_ever_active:
  assumes "disruptions dp = Some dis" and "i < length (slots dp)"
  shows "\<exists>sv. map_of (services (fst (merge_connection r c b rp dp s))) (slot_id r c i) = Some sv
          \<and> (run_active (svc_health sv)
                \<longleftrightarrow> has (everActive (fst (merge_connection r c b rp dp s)))
                      (dep_run_ref (slots dp ! i)))
          \<and> (run_active (svc_health sv)
                \<longleftrightarrow> (\<exists>ref. dep_run_ref (slots dp ! i) = Some ref
                      \<and> (ref \<in> set (Object_keys (activeRuns_of rp (dir_id (forward_direction c))))
                          \<or> ref \<in> everActive s)))
          \<and> set (Object_keys (activeRuns_of rp (dir_id (forward_direction c))))
                = {property_key (run_run_ref x) | x.
                     x \<in> set (case runs rp of None \<Rightarrow> [] | Some rs \<Rightarrow> rs)
                     \<and> vehicle_position x \<noteq> None
                     \<and> run_direction_id x = dir_id (forward_direction c)}"
proof -
  let ?sv = "built_service r c b rp dp s i (slots dp ! i)"
  let ?did = "dir_id (forward_direction c)"
  have stored: "map_of (services (fst (merge_connection r c b rp dp s))) (slot_id r c i) = Some ?sv"
    using assms by (rule merge_connection_slot)
  have flag: "run_active (svc_health ?sv)
      = has (observe rp ?did (everActive s)) (dep_run_ref (slots dp ! i))"
    by (simp add: built_service_def run_active_build_service)
  have a: "run_active (svc_health ?sv)
      \<longleftrightarrow> has (everActive (fst (merge_connection r c b rp dp s))) (dep_run_ref (slots dp ! i))"
    by (simp add: flag merge_connection_everActive)
  have b: "run_active (svc_health ?sv)
      \<longleftrightarrow> (\<exists>ref. dep_run_ref (slots dp ! i) = Some ref
            \<and> (ref \<in> set (Object_keys (activeRuns_of rp ?did)) \<or> ref \<in> everActive s))"
    by (simp add: flag observe_eq has_iff)
  note c = keys_activeRuns_of [of rp ?did]
  from stored a b c show ?thesis by blast
qed

theorem runActive_iff_ever_active_witness:
  "disruptions deps_two = Some [] \<and> 0 < length (slots deps_two)
   \<and> (\<exists>sv. map_of (services (fst (merge_connection 13067 conn_630 120 runs_live deps_two initial_state)))
               (slot_id 13067 conn_630 0) = Some sv
          \<and> run_active (svc_health sv))"
proof -
  have pos: "0 < length (slots deps_two)"
    by (simp add: slots_deps_two)
  have ref: "dep_run_ref (slots deps_two ! 0) = Some ''950188''"
    by (simp add: slots_deps_two dep_a_def)
  have live: "''950188'' \<in> set (Object_keys (activeRuns_of runs_live (dir_id (forward_direction conn_630))))"
    by (simp add: keys_activeRuns_of runs_live_def conn_630_eq property_key_def)
  from runActive_iff_ever_active [OF disruptions_deps_two pos,
      of 13067 conn_630 120 runs_live initial_state]
  obtain sv where
    sv: "map_of (services (fst (merge_connection 13067 conn_630 120 runs_live deps_two initial_state)))
               (slot_id 13067 conn_630 0) = Some sv"
    and iff: "run_active (svc_health sv)
      \<longleftrightarrow> (\<exists>ref. dep_run_ref (slots deps_two ! 0) = Some ref
            \<and> (ref \<in> set (Object_keys (activeRuns_of runs_live (dir_id (forward_direction conn_630))))
                \<or> ref \<in> everActive initial_state))"
    by blast
  from iff ref live have "run_active (svc_health sv)"
    by blast
  with sv have "\<exists>sv. map_of (services (fst (merge_connection 13067 conn_630 120 runs_live deps_two initial_state)))
               (slot_id 13067 conn_630 0) = Some sv \<and> run_active (svc_health sv)"
    by (intro exI [of _ sv] conjI)
  with disruptions_deps_two pos show ?thesis
    by (intro conjI)
qed

theorem runActive_without_position_counterexample:
  "Object_keys (activeRuns_of runs_idle (dir_id (forward_direction conn_630))) = []
   \<and> dep_run_ref (slots deps_one ! 0) = Some ''950188''
   \<and> map_option (\<lambda>sv. run_active (svc_health sv))
        (map_of (services (fst (merge_connection 13067 conn_630 120 runs_idle deps_one after_first_poll)))
           ''13067-188-22875-0'')
       = Some True"
proof -
  have keys: "Object_keys (activeRuns_of runs_idle (dir_id (forward_direction conn_630))) = []"
    by (simp add: activeRuns_of_def runs_idle_def fromEntries_def Object_keys_def)
  have pos: "0 < length (slots deps_one)"
    by (simp add: slots_deps_one)
  have ref: "dep_run_ref (slots deps_one ! 0) = Some ''950188''"
    by (simp add: slots_deps_one dep_a_def)
  have stored: "map_of (services (fst (merge_connection 13067 conn_630 120 runs_idle deps_one after_first_poll)))
        (slot_id 13067 conn_630 0)
      = Some (built_service 13067 conn_630 120 runs_idle deps_one after_first_poll 0 (slots deps_one ! 0))"
    using disruptions_deps_one pos by (rule merge_connection_slot)
  have "run_active (svc_health
          (built_service 13067 conn_630 120 runs_idle deps_one after_first_poll 0 (slots deps_one ! 0)))
      = has (observe runs_idle (dir_id (forward_direction conn_630)) (everActive after_first_poll))
          (dep_run_ref (slots deps_one ! 0))"
    by (simp add: built_service_def run_active_build_service)
  also have "\<dots> = True"
    unfolding ref observe_eq keys everActive_after_first_poll by (simp add: has_def)
  finally have flag: "run_active (svc_health
      (built_service 13067 conn_630 120 runs_idle deps_one after_first_poll 0 (slots deps_one ! 0)))
      = True" .
  have "map_option (\<lambda>sv. run_active (svc_health sv))
        (map_of (services (fst (merge_connection 13067 conn_630 120 runs_idle deps_one after_first_poll)))
           (slot_id 13067 conn_630 0)) = Some True"
    unfolding stored using flag by simp
  then have shown: "map_option (\<lambda>sv. run_active (svc_health sv))
        (map_of (services (fst (merge_connection 13067 conn_630 120 runs_idle deps_one after_first_poll)))
           ''13067-188-22875-0'') = Some True"
    unfolding slot_0_of_630 .
  show ?thesis
    by (rule conjI [OF keys conjI [OF ref shown]])
qed

subsection \<open>Other connections\<close>

text \<open>
  Claim C8. A poll of the connection with route id \<open>r\<close> leaves the entry under every
  composite id of another route id as it is; every id whose entry the poll changes is a
  slot id of \<open>r\<close>, which begins with the digits of \<open>r\<close> and a dash; and the route ids
  that \<^verbatim>\<open>Object.entries\<close> yields for a catalog are pairwise distinct.
\<close>

theorem poll_leaves_other_routes:
  assumes "r' \<noteq> r"
  shows "map_of (services (fst (merge_connection r c b rp dp s))) (idString r' d' st' i')
           = map_of (services s) (idString r' d' st' i')
       \<and> (\<forall>k. map_of (services (fst (merge_connection r c b rp dp s))) k \<noteq> map_of (services s) k
              \<longrightarrow> (\<exists>i<length (slots dp). k = slot_id r c i)
                  \<and> (\<exists>rest. k = show_nat r @ ''-'' @ rest))
       \<and> distinct (map fst (Object_entries cat))"
proof (intro conjI allI impI)
  show "map_of (services (fst (merge_connection r c b rp dp s))) (idString r' d' st' i')
      = map_of (services s) (idString r' d' st' i')"
    by (rule merge_connection_other) (rule slot_id_other_route [OF assms])
next
  fix k
  assume changed: "map_of (services (fst (merge_connection r c b rp dp s))) k \<noteq> map_of (services s) k"
  show slot: "\<exists>i<length (slots dp). k = slot_id r c i"
  proof (rule ccontr)
    assume "\<not> (\<exists>i<length (slots dp). k = slot_id r c i)"
    then have "map_of (services (fst (merge_connection r c b rp dp s))) k = map_of (services s) k"
      by (intro merge_connection_other) blast
    with changed show False by simp
  qed
  then obtain i where "k = slot_id r c i" by blast
  then have "k = show_nat r @ ''-'' @ drop (length (show_nat r) + 1) (slot_id r c i)"
    using slot_id_prefix [of r c i] by simp
  then show "\<exists>rest. k = show_nat r @ ''-'' @ rest" ..
next
  show "distinct (map fst (Object_entries cat))"
    by (rule distinct_keys_Object_entries)
qed

lemma conn_733_eq:
  "conn_733 = \<lparr>conn_id = 13271, conn_type = 2,
      conn_name = ''Oakleigh - Box Hill via Clayton & Monash University & Mt Waverley'',
      conn_number = ''733'',
      forward_direction = \<lparr>dir_id = 32, origin = 22833, destination = 33430\<rparr>,
      reverse_direction = Some \<lparr>dir_id = 184, origin = 33430, destination = 22833\<rparr>,
      walking = [22833 \<mapsto> 115, 33430 \<mapsto> 430],
      conn_duration = \<lparr>dur_min = 1200, dur_max = 1740, dur_avg = 1468\<rparr>\<rparr>"
  by (simp add: conn_733_def connections_def)

theorem poll_leaves_other_routes_witness:
  "(13271::nat) \<noteq> 13067
   \<and> map_of (services (fst (merge_connection 13067 conn_630 120 runs_live deps_two table_733)))
        (slot_id 13271 conn_733 0)
       = map_of (services table_733) (slot_id 13271 conn_733 0)
   \<and> map_of (services table_733) (slot_id 13271 conn_733 0)
       = Some (built_service 13271 conn_733 120 runs_idle deps_one initial_state 0 dep_a)"
proof -
  have ne: "(13271::nat) \<noteq> 13067" by simp
  have kept: "map_of (services (fst (merge_connection 13067 conn_630 120 runs_live deps_two table_733)))
        (slot_id 13271 conn_733 0)
       = map_of (services table_733) (slot_id 13271 conn_733 0)"
    unfolding slot_id_def [of 13271]
    using poll_leaves_other_routes [OF ne, of conn_630 120 runs_live deps_two table_733]
    by (rule conjunct1)
  have pos: "0 < length (slots deps_one)"
    by (simp add: slots_deps_one)
  have nth: "slots deps_one ! 0 = dep_a"
    by (simp add: slots_deps_one)
  have there: "map_of (services table_733) (slot_id 13271 conn_733 0)
       = Some (built_service 13271 conn_733 120 runs_idle deps_one initial_state 0 dep_a)"
    unfolding table_733_def
    using merge_connection_slot [OF disruptions_deps_one pos, of 13271 conn_733 120 runs_idle initial_state]
    unfolding nth .
  show ?thesis
    by (rule conjI [OF ne conjI [OF kept there]])
qed

subsection \<open>The ever-active set\<close>

lemma resume_everActive_subset:
  assumes "resume b t out s = (s', t', e)"
  shows "everActive s \<subseteq> everActive s'"
proof (cases t)
  case (AwaitRuns es)
  with assms show ?thesis
    by (cases es) (auto split: sum.splits)
next
  case (AwaitDepartures rp es)
  show ?thesis
  proof (cases es)
    case Nil
    with assms AwaitDepartures show ?thesis by simp
  next
    case (Cons rc rest)
    obtain r c where rc: "rc = (r, c)" by (cases rc)
    show ?thesis
    proof (cases "settle_call out")
      case (Inl err)
      with assms AwaitDepartures Cons rc show ?thesis by simp
    next
      case (Inr dp)
      have "s' = fst (merge_connection r c b rp dp s)"
        using assms AwaitDepartures Cons rc Inr
        by (cases "merge_connection r c b rp dp s") (auto split: option.splits)
      then show ?thesis
        by (simp add: merge_connection_everActive observe_mono)
    qed
  qed
qed

lemma step_everActive_subset:
  "step cat sys sys' \<Longrightarrow> everActive (shared sys) \<subseteq> everActive (shared sys')"
  by (induction rule: step.induct) (simp_all add: resume_everActive_subset)

lemma steps_everActive_subset:
  "(step cat)\<^sup>*\<^sup>* sys sys' \<Longrightarrow> everActive (shared sys) \<subseteq> everActive (shared sys')"
proof (induction rule: rtranclp_induct)
  case base
  show ?case by simp
next
  case (step y z)
  from step.hyps(2) have "everActive (shared y) \<subseteq> everActive (shared z)"
    by (rule step_everActive_subset)
  with step.IH show ?case by simp
qed

lemma checkRoutes_loop_Cons:
  "checkRoutes_loop devid net b ((r, c) # es) s =
     (case call devid net (runs_endpoint r c) [(''expand'', ''VehiclePosition'')] of
        Inl e \<Rightarrow> (s, Some e)
      | Inr rp \<Rightarrow>
          (case call devid net (departures_endpoint r c) (departures_params c) of
             Inl e \<Rightarrow> (s, Some e)
           | Inr dp \<Rightarrow>
               (case snd (merge_connection r c b rp dp s) of
                  Some e \<Rightarrow> (fst (merge_connection r c b rp dp s), Some e)
                | None \<Rightarrow> checkRoutes_loop devid net b es (fst (merge_connection r c b rp dp s)))))"
  by (simp split: sum.splits prod.splits option.splits)

lemma checkRoutes_loop_everActive_subset:
  "everActive s \<subseteq> everActive (fst (checkRoutes_loop devid net b es s))"
proof (induction es arbitrary: s)
  case Nil
  show ?case by simp
next
  case (Cons rc es)
  obtain r c where rc: "rc = (r, c)" by (cases rc)
  have m: "everActive s \<subseteq> everActive (fst (merge_connection r c b rp dp s))" for rp dp
    by (simp add: merge_connection_everActive observe_mono)
  have n: "everActive s
      \<subseteq> everActive (fst (checkRoutes_loop devid net b es (fst (merge_connection r c b rp dp s))))"
    for rp dp
    using m [of rp dp] Cons.IH [of "fst (merge_connection r c b rp dp s)"] by (rule subset_trans)
  show ?case
    unfolding rc checkRoutes_loop_Cons
    using m n by (simp split: sum.splits option.splits)
qed

lemma observed_run_is_ever_active:
  assumes "runs rp = Some rs" and "x \<in> set rs" and "vehicle_position x \<noteq> None"
    and "run_direction_id x = dir_id (forward_direction c)"
  shows "property_key (run_run_ref x) \<in> everActive (fst (merge_connection r c b rp dp s))"
  using assms by (auto simp: merge_connection_everActive observe_eq keys_activeRuns_of)

lemma step_waiting_settled: "step cat sys_waiting sys_settled"
proof -
  have idx: "0 < length (tasks sys_waiting)"
    by (simp add: sys_waiting_def)
  have ok: "snd (merge_connection 13067 conn_630 default_buffer runs_idle deps_one after_first_poll) = None"
    using disruptions_deps_one by (rule merge_connection_no_error)
  have res: "resume default_buffer (tasks sys_waiting ! 0) (Response True ''OK'' (Some deps_one))
        (shared sys_waiting)
      = (fst (merge_connection 13067 conn_630 default_buffer runs_idle deps_one after_first_poll),
         None, None)"
    using ok
    by (cases "merge_connection 13067 conn_630 default_buffer runs_idle deps_one after_first_poll")
       (simp add: sys_waiting_def settle_call_def)
  have "step cat sys_waiting
      (sys_waiting\<lparr>shared := fst (merge_connection 13067 conn_630 default_buffer runs_idle deps_one
                                    after_first_poll),
        tasks := take 0 (tasks sys_waiting) @ option_list None @ drop (Suc 0) (tasks sys_waiting),
        unhandled := unhandled sys_waiting @ option_list None\<rparr>)"
    using idx res by (rule step.settled)
  moreover have "sys_waiting\<lparr>shared := fst (merge_connection 13067 conn_630 default_buffer runs_idle
                                    deps_one after_first_poll),
        tasks := take 0 (tasks sys_waiting) @ option_list None @ drop (Suc 0) (tasks sys_waiting),
        unhandled := unhandled sys_waiting @ option_list None\<rparr> = sys_settled"
    by (simp add: sys_waiting_def sys_settled_def option_list_def)
  ultimately show ?thesis by simp
qed

text \<open>
  Claim C7. Along every execution of the system the ever-active set only grows: a run
  identifier that is in the set stays in it in every later state, whatever the later polls
  report. (A run of the forward direction that a poll reports with a vehicle position is
  put into the set by that poll: lemma \<open>observed_run_is_ever_active\<close>.)
\<close>

theorem everActive_never_shrinks:
  assumes "(step cat)\<^sup>*\<^sup>* sys sys'"
  shows "everActive (shared sys) \<subseteq> everActive (shared sys')
       \<and> (\<forall>ref. has (everActive (shared sys)) ref \<longrightarrow> has (everActive (shared sys')) ref)"
proof -
  from assms have sub: "everActive (shared sys) \<subseteq> everActive (shared sys')"
    by (rule steps_everActive_subset)
  then have "has (everActive (shared sys)) ref \<Longrightarrow> has (everActive (shared sys')) ref" for ref
    by (auto simp: has_iff)
  with sub show ?thesis by blast
qed

theorem everActive_never_shrinks_witness:
  "(step connections)\<^sup>*\<^sup>* sys_waiting sys_settled
   \<and> Object_keys (activeRuns_of runs_idle (dir_id (forward_direction conn_630))) = []
   \<and> has (everActive (shared sys_waiting)) (Some ''950188'')
   \<and> has (everActive (shared sys_settled)) (Some ''950188'')"
proof -
  have steps: "(step connections)\<^sup>*\<^sup>* sys_waiting sys_settled"
    using step_waiting_settled [of connections] by (rule r_into_rtranclp)
  have keys: "Object_keys (activeRuns_of runs_idle (dir_id (forward_direction conn_630))) = []"
    by (simp add: activeRuns_of_def runs_idle_def fromEntries_def Object_keys_def)
  have before: "has (everActive (shared sys_waiting)) (Some ''950188'')"
    by (simp add: sys_waiting_def everActive_after_first_poll has_def)
  from everActive_never_shrinks [OF steps] before
  have after: "has (everActive (shared sys_settled)) (Some ''950188'')"
    by blast
  show ?thesis
    by (rule conjI [OF steps conjI [OF keys conjI [OF before after]]])
qed

subsection \<open>The run flag over time\<close>

text \<open>
  Claim C9. Once a poll has stored a Service for the run \<open>ref\<close> whose run flag is true,
  every Service that a later poll stores for the same run has the run flag true as well:
  the flag is read from the ever-active set, which does not shrink.
\<close>

theorem runActive_persists:
  assumes "disruptions dp1 = Some dis1" and "j1 < length (slots dp1)"
    and "map_of (services (fst (merge_connection r1 c1 b1 rp1 dp1 (shared sys0)))) (slot_id r1 c1 j1)
           = Some sv1"
    and "svc_run_ref sv1 = Some ref" and "run_active (svc_health sv1)"
    and "shared sys1 = fst (merge_connection r1 c1 b1 rp1 dp1 (shared sys0))"
    and "(step cat)\<^sup>*\<^sup>* sys1 sys2"
    and "disruptions dp2 = Some dis2" and "j2 < length (slots dp2)"
    and "map_of (services (fst (merge_connection r2 c2 b2 rp2 dp2 (shared sys2)))) (slot_id r2 c2 j2)
           = Some sv2"
    and "svc_run_ref sv2 = Some ref"
  shows "run_active (svc_health sv2)"
proof -
  let ?d1 = "slots dp1 ! j1" and ?d2 = "slots dp2 ! j2"
  have sv1: "sv1 = built_service r1 c1 b1 rp1 dp1 (shared sys0) j1 ?d1"
    using merge_connection_slot [OF assms(1,2), of r1 c1 b1 rp1 "shared sys0"] assms(3) by simp
  have sv2: "sv2 = built_service r2 c2 b2 rp2 dp2 (shared sys2) j2 ?d2"
    using merge_connection_slot [OF assms(8,9), of r2 c2 b2 rp2 "shared sys2"] assms(10) by simp
  have ref1: "dep_run_ref ?d1 = Some ref"
    using assms(4) by (simp add: sv1 built_service_def svc_run_ref_build_service)
  have ref2: "dep_run_ref ?d2 = Some ref"
    using assms(11) by (simp add: sv2 built_service_def svc_run_ref_build_service)
  have "has (observe rp1 (dir_id (forward_direction c1)) (everActive (shared sys0))) (Some ref)"
    using assms(5) by (simp add: sv1 built_service_def run_active_build_service ref1)
  then have "ref \<in> everActive (shared sys1)"
    by (simp add: assms(6) merge_connection_everActive has_def)
  moreover have "everActive (shared sys1) \<subseteq> everActive (shared sys2)"
    using assms(7) by (rule steps_everActive_subset)
  moreover have "everActive (shared sys2)
      \<subseteq> observe rp2 (dir_id (forward_direction c2)) (everActive (shared sys2))"
    by (rule observe_mono)
  ultimately have "has (observe rp2 (dir_id (forward_direction c2)) (everActive (shared sys2))) (Some ref)"
    by (auto simp: has_def)
  then show ?thesis
    by (simp add: sv2 built_service_def run_active_build_service ref2)
qed

lemma live_950188:
  "''950188'' \<in> set (Object_keys (activeRuns_of runs_live (dir_id (forward_direction conn_630))))"
  by (simp add: keys_activeRuns_of runs_live_def conn_630_eq property_key_def)

theorem runActive_persists_witness:
  "(step connections)\<^sup>*\<^sup>* sys_waiting sys_settled
   \<and> map_of (services (fst (merge_connection 13067 conn_630 120 runs_live deps_two
                (shared (initial_system connections))))) (slot_id 13067 conn_630 0)
       = Some (built_service 13067 conn_630 120 runs_live deps_two initial_state 0 dep_a)
   \<and> run_active (svc_health (built_service 13067 conn_630 120 runs_live deps_two initial_state 0 dep_a))
   \<and> map_of (services (fst (merge_connection 13067 conn_630 120 runs_idle deps_one
                (shared sys_settled)))) (slot_id 13067 conn_630 0)
       = Some (built_service 13067 conn_630 120 runs_idle deps_one (shared sys_settled) 0 dep_a)
   \<and> run_active (svc_health
         (built_service 13067 conn_630 120 runs_idle deps_one (shared sys_settled) 0 dep_a))"
proof -
  let ?sv1 = "built_service 13067 conn_630 120 runs_live deps_two initial_state 0 dep_a"
  let ?sv2 = "built_service 13067 conn_630 120 runs_idle deps_one (shared sys_settled) 0 dep_a"
  have init: "shared (initial_system connections) = initial_state"
    by (simp add: initial_system_def)
  have pos2: "0 < length (slots deps_two)" and nth2: "slots deps_two ! 0 = dep_a"
    by (simp_all add: slots_deps_two)
  have pos1: "0 < length (slots deps_one)" and nth1: "slots deps_one ! 0 = dep_a"
    by (simp_all add: slots_deps_one)
  have h3: "map_of (services (fst (merge_connection 13067 conn_630 120 runs_live deps_two
                (shared (initial_system connections))))) (slot_id 13067 conn_630 0) = Some ?sv1"
    using merge_connection_slot [OF disruptions_deps_two pos2, of 13067 conn_630 120 runs_live
        "shared (initial_system connections)"]
    unfolding nth2 init .
  have h4: "svc_run_ref ?sv1 = Some ''950188''"
    by (simp add: built_service_def svc_run_ref_build_service dep_a_def)
  have h5: "run_active (svc_health ?sv1)"
    using live_950188
    by (simp add: built_service_def run_active_build_service observe_eq has_def dep_a_def)
  have h6: "shared sys_waiting
      = fst (merge_connection 13067 conn_630 120 runs_live deps_two (shared (initial_system connections)))"
    unfolding init by (simp add: sys_waiting_def after_first_poll_def)
  have h7: "(step connections)\<^sup>*\<^sup>* sys_waiting sys_settled"
    using step_waiting_settled [of connections] by (rule r_into_rtranclp)
  have h10: "map_of (services (fst (merge_connection 13067 conn_630 120 runs_idle deps_one
                (shared sys_settled)))) (slot_id 13067 conn_630 0) = Some ?sv2"
    using merge_connection_slot [OF disruptions_deps_one pos1, of 13067 conn_630 120 runs_idle
        "shared sys_settled"]
    unfolding nth1 .
  have h11: "svc_run_ref ?sv2 = Some ''950188''"
    by (simp add: built_service_def svc_run_ref_build_service dep_a_def)
  have goal: "run_active (svc_health ?sv2)"
    using disruptions_deps_two pos2 h3 h4 h5 h6 h7 disruptions_deps_one pos1 h10 h11
    by (rule runActive_persists)
  show ?thesis
    by (rule conjI [OF h7 conjI [OF h3 conjI [OF h5 conjI [OF h10 goal]]]])
qed

subsection \<open>The rendered list\<close>

lemma not_after_valid:
  "arrive_by a \<noteq> None \<Longrightarrow> arrive_by b \<noteq> None \<Longrightarrow> not_after a b = arrive_le a b"
  by (auto simp: not_after_def comparator_def arrive_le_def)

lemma arrive_le_total:
  "arrive_by a \<noteq> None \<Longrightarrow> arrive_by b \<noteq> None \<Longrightarrow> \<not> arrive_le a b \<Longrightarrow> arrive_le b a"
  by (auto simp: arrive_le_def)

lemma arrive_le_trans: "arrive_le a b \<Longrightarrow> arrive_le b c \<Longrightarrow> arrive_le a c"
  by (auto simp: arrive_le_def split: option.splits)

lemma mset_insert_sorted: "mset (insert_sorted x xs) = add_mset x (mset xs)"
  by (induction xs) simp_all

lemma set_insert_sorted: "set (insert_sorted x xs) = insert x (set xs)"
  using mset_insert_sorted [of x xs, THEN arg_cong, of set_mset] by simp

lemma mset_sort_services: "mset (sort_services xs) = mset xs"
  by (induction xs) (simp_all add: mset_insert_sorted)

lemma set_sort_services: "set (sort_services xs) = set xs"
  using mset_sort_services [of xs, THEN arg_cong, of set_mset] by simp

lemma sorted_insert_sorted:
  assumes "arrive_by x \<noteq> None" and "\<forall>y\<in>set xs. arrive_by y \<noteq> None"
    and "sorted_wrt arrive_le xs"
  shows "sorted_wrt arrive_le (insert_sorted x xs)"
  using assms(2,3)
proof (induction xs)
  case Nil
  show ?case by simp
next
  case (Cons y ys)
  from Cons.prems have y: "arrive_by y \<noteq> None" and ys: "\<forall>z\<in>set ys. arrive_by z \<noteq> None"
    and yle: "\<forall>z\<in>set ys. arrive_le y z" and sorted: "sorted_wrt arrive_le ys"
    by simp_all
  show ?case
  proof (cases "not_after x y")
    case True
    then have xy: "arrive_le x y"
      using assms(1) y by (simp add: not_after_valid)
    then have "\<forall>z\<in>set ys. arrive_le x z"
      using yle arrive_le_trans by blast
    with True xy Cons.prems show ?thesis by simp
  next
    case False
    then have "\<not> arrive_le x y"
      using assms(1) y by (simp add: not_after_valid)
    then have yx: "arrive_le y x"
      using assms(1) y by (rule arrive_le_total [rotated 2])
    have "sorted_wrt arrive_le (insert_sorted x ys)"
      using ys sorted by (rule Cons.IH)
    with False yx yle show ?thesis
      by (simp add: set_insert_sorted)
  qed
qed

lemma sorted_sort_services:
  "\<forall>x\<in>set xs. arrive_by x \<noteq> None \<Longrightarrow> sorted_wrt arrive_le (sort_services xs)"
proof (induction xs)
  case Nil
  show ?case by simp
next
  case (Cons x xs)
  then show ?case
    by (simp add: sorted_insert_sorted set_sort_services)
qed

lemma render_rows:
  assumes "\<forall>s\<in>set ss. map_of (fromEntries cat) (svc_route_id s) \<noteq> None"
  shows "map row_service (fst (render cat clock buffer k ss))
           = map snd (filter (\<lambda>(j, s). \<not> skipped (clock j) buffer s) (enumerate k ss))
       \<and> snd (render cat clock buffer k ss) = None"
  using assms
proof (induction ss arbitrary: k)
  case Nil
  show ?case by simp
next
  case (Cons s ss)
  then obtain c where c: "map_of (fromEntries cat) (svc_route_id s) = Some c"
    by auto
  from Cons have ih: "map row_service (fst (render cat clock buffer (Suc k) ss))
        = map snd (filter (\<lambda>(j, s). \<not> skipped (clock j) buffer s) (enumerate (Suc k) ss))"
      "snd (render cat clock buffer (Suc k) ss) = None"
    by simp_all
  show ?case
    using c ih by (simp add: case_prod_unfold)
qed

lemma tested_subset: "set (map snd (filter P (enumerate k xs))) \<subseteq> set xs"
  by (induction xs arbitrary: k) auto

lemma sorted_wrt_tested:
  "sorted_wrt R xs \<Longrightarrow> sorted_wrt R (map snd (filter P (enumerate k xs)))"
proof (induction xs arbitrary: k)
  case Nil
  show ?case by simp
next
  case (Cons x xs)
  from Cons.prems have first: "\<forall>y\<in>set xs. R x y" and rest: "sorted_wrt R xs"
    by simp_all
  have ih: "sorted_wrt R (map snd (filter P (enumerate (Suc k) xs)))"
    using rest by (rule Cons.IH)
  have "\<forall>y\<in>set (map snd (filter P (enumerate (Suc k) xs))). R x y"
    using first tested_subset [of P "Suc k" xs] by blast
  with ih show ?case by simp
qed

lemma tested_constant_clock:
  "(\<forall>j. k \<le> j \<and> j < k + length ss \<longrightarrow> clock j = now)
    \<Longrightarrow> map snd (filter (\<lambda>(j, s). \<not> skipped (clock j) buffer s) (enumerate k ss))
        = filter (\<lambda>s. \<not> skipped now buffer s) ss"
proof (induction ss arbitrary: k)
  case Nil
  show ?case by simp
next
  case (Cons s ss)
  from Cons.prems have here: "clock k = now"
    by simp
  from Cons.prems have "\<forall>j. Suc k \<le> j \<and> j < Suc k + length ss \<longrightarrow> clock j = now"
    by simp
  then have "map snd (filter (\<lambda>(j, s). \<not> skipped (clock j) buffer s) (enumerate (Suc k) ss))
      = filter (\<lambda>s. \<not> skipped now buffer s) ss"
    by (rule Cons.IH)
  with here show ?case by simp
qed

lemma length_sort_services: "length (sort_services xs) = length xs"
  using mset_sort_services [of xs, THEN arg_cong, of size] by simp

lemma skipped_iff:
  "skipped now buffer s \<longleftrightarrow> (\<exists>g. get_going_by s = Some g \<and> g - now < - (buffer * 1000))"
  by (cases "get_going_by s") (simp_all add: skipped_def td_def)

text \<open>
  Claim C4, as amended. For a table whose Services have valid arrival instants and route
  ids of the catalog, \<^verbatim>\<open>updateTable\<close> sorts the Services of the table in ascending order
  of \<open>arriveBy\<close> and publishes, in that order, exactly those whose time left,
  \<open>getGoingBy - t\<close>, is not below minus the buffer (that is, not those with
  \<open>t - getGoingBy > buffer\<close>, in milliseconds), where \<open>t\<close> is the clock reading that the
  loop takes when it comes to that Service: the Service at position \<open>k\<close> of the sorted
  sequence is tested against \<open>clock k\<close>. When all readings of the call are one instant
  \<open>now\<close>, the published Services are exactly those of the table with
  \<open>getGoingBy - now\<close> not below minus the buffer, each once.
\<close>

theorem updateTable_visible_sorted:
  assumes "\<forall>s\<in>set (Object_values svcs).
             arrive_by s \<noteq> None \<and> map_of (fromEntries cat) (svc_route_id s) \<noteq> None"
  shows "snd (updateTable cat clock buffer svcs) = None
       \<and> mset (sort_services (Object_values svcs)) = mset (Object_values svcs)
       \<and> sorted_wrt arrive_le (sort_services (Object_values svcs))
       \<and> map row_service (fst (updateTable cat clock buffer svcs))
           = map snd (filter (\<lambda>(k, s). \<not> skipped (clock k) buffer s)
               (enumerate 0 (sort_services (Object_values svcs))))
       \<and> sorted_wrt arrive_le (map row_service (fst (updateTable cat clock buffer svcs)))
       \<and> (\<forall>t s. skipped t buffer s
                \<longleftrightarrow> (\<exists>g. get_going_by s = Some g \<and> g - t < - (buffer * 1000)))
       \<and> (\<forall>t s g. get_going_by s = Some g
                \<longrightarrow> (skipped t buffer s \<longleftrightarrow> t - g > buffer * 1000))
       \<and> ((\<forall>k<length (Object_values svcs). clock k = now)
            \<longrightarrow> mset (map row_service (fst (updateTable cat clock buffer svcs)))
                  = filter_mset (\<lambda>s. \<not> skipped now buffer s) (mset (Object_values svcs)))"
proof -
  let ?sorted = "sort_services (Object_values svcs)"
  let ?rows = "map row_service (fst (updateTable cat clock buffer svcs))"
  from assms have ids: "\<forall>s\<in>set ?sorted. map_of (fromEntries cat) (svc_route_id s) \<noteq> None"
    by (simp add: set_sort_services)
  from assms have valid: "\<forall>s\<in>set (Object_values svcs). arrive_by s \<noteq> None"
    by simp
  have rows: "?rows = map snd (filter (\<lambda>(k, s). \<not> skipped (clock k) buffer s) (enumerate 0 ?sorted))"
    and ok: "snd (updateTable cat clock buffer svcs) = None"
    using render_rows [OF ids, of clock buffer 0] by (simp_all add: updateTable_def)
  have perm: "mset ?sorted = mset (Object_values svcs)"
    by (rule mset_sort_services)
  have srt: "sorted_wrt arrive_le ?sorted"
    using valid by (rule sorted_sort_services)
  then have srt_rows: "sorted_wrt arrive_le ?rows"
    unfolding rows by (rule sorted_wrt_tested)
  have sk: "\<forall>t s. skipped t buffer s
      \<longleftrightarrow> (\<exists>g. get_going_by s = Some g \<and> g - t < - (buffer * 1000))"
    by (simp add: skipped_iff)
  have sk': "\<forall>t s g. get_going_by s = Some g
      \<longrightarrow> (skipped t buffer s \<longleftrightarrow> t - g > buffer * 1000)"
    by (auto simp: skipped_iff)
  have const: "(\<forall>k<length (Object_values svcs). clock k = now)
      \<longrightarrow> mset ?rows = filter_mset (\<lambda>s. \<not> skipped now buffer s) (mset (Object_values svcs))"
  proof
    assume "\<forall>k<length (Object_values svcs). clock k = now"
    then have "\<forall>j. 0 \<le> j \<and> j < 0 + length ?sorted \<longrightarrow> clock j = now"
      by (simp add: length_sort_services)
    then have "?rows = filter (\<lambda>s. \<not> skipped now buffer s) ?sorted"
      unfolding rows by (rule tested_constant_clock)
    then show "mset ?rows = filter_mset (\<lambda>s. \<not> skipped now buffer s) (mset (Object_values svcs))"
      by (simp add: perm)
  qed
  show ?thesis
    by (rule conjI [OF ok conjI [OF perm conjI [OF srt conjI [OF rows conjI [OF srt_rows
          conjI [OF sk conjI [OF sk' const]]]]]]])
qed

lemma catalog_has_630: "map_of (fromEntries connections) 13067 \<noteq> None"
  by (simp add: fromEntries_def connections_def)

lemma departureTime_dep_a: "departureTime dep_a = 1714550460000"
  by (simp add: departureTime_def dep_a_def)

lemma departureTimes_three:
  "departureTime dep_05 = 1714550700000" "departureTime dep_10 = 1714551000000"
  "departureTime dep_20 = 1714551600000"
  by (simp_all add: departureTime_def dep_05_def dep_10_def dep_20_def)

lemma route_id_built_service: "svc_route_id (built_service r c b rp dp s i d) = conn_id c"
  by (simp add: built_service_def build_service_def Let_def)

lemma svc_id_built_service: "svc_id (built_service r c b rp dp s i d) = slot_id r c i"
  by (simp add: built_service_def svc_id_build_service)

lemma conn_id_630: "conn_id conn_630 = 13067"
  by (simp add: conn_630_eq)

lemma deadlines_630:
  "get_going_by (built_service 13067 conn_630 120 rp dp s i d)
     = Some (departureTime d - 571 * 1000 - 120 * 1000)"
  "arrive_by (built_service 13067 conn_630 120 rp dp s i d)
     = Some (departureTime d + 620 * 1000 + 430 * 1000)"
  unfolding built_service_def
  using build_service_deadlines [OF walking_conn_630(1,2)]
  by (simp_all add: walking_conn_630(3))

lemma slots_630_distinct:
  "slot_id 13067 conn_630 0 \<noteq> slot_id 13067 conn_630 1"
  "slot_id 13067 conn_630 0 \<noteq> slot_id 13067 conn_630 2"
  "slot_id 13067 conn_630 1 \<noteq> slot_id 13067 conn_630 2"
  using slot_id_inj [of 13067 conn_630 0 1] slot_id_inj [of 13067 conn_630 0 2]
    slot_id_inj [of 13067 conn_630 1 2]
  by auto

lemma values_table_three: "Object_values (services table_three) = [sv_20, sv_05, sv_10]"
proof -
  have ds: "departures deps_three = Some [dep_20, dep_05, dep_10]"
    and dis: "disruptions deps_three = Some []"
    by (simp_all add: deps_three_def)
  have "services table_three =
      [(slot_id 13067 conn_630 0, sv_20), (slot_id 13067 conn_630 1, sv_05),
       (slot_id 13067 conn_630 2, sv_10)]"
    unfolding table_three_def merge_connection_def Let_def ds sv_20_def sv_05_def sv_10_def
    using slots_630_distinct
    by (simp add: dis Let_def svc_id_build_service built_service_def titles_of_def
        initial_state_def numeral_2_eq_2)
  then show ?thesis
    by (simp add: Object_values_def)
qed

lemma values_table_same: "Object_values (services table_same) = [sv_first, sv_second]"
proof -
  have ds: "departures deps_same = Some [dep_a, dep_a]"
    and dis: "disruptions deps_same = Some []"
    by (simp_all add: deps_same_def)
  have "services table_same =
      [(slot_id 13067 conn_630 0, sv_first), (slot_id 13067 conn_630 1, sv_second)]"
    unfolding table_same_def merge_connection_def Let_def ds sv_first_def sv_second_def
    using slots_630_distinct
    by (simp add: dis Let_def svc_id_build_service built_service_def titles_of_def
        initial_state_def)
  then show ?thesis
    by (simp add: Object_values_def)
qed

lemma deadlines_three:
  "get_going_by sv_05 = Some 1714550009000" "arrive_by sv_05 = Some 1714551750000"
  "get_going_by sv_10 = Some 1714550309000" "arrive_by sv_10 = Some 1714552050000"
  "get_going_by sv_20 = Some 1714550909000" "arrive_by sv_20 = Some 1714552650000"
  unfolding sv_05_def sv_10_def sv_20_def deadlines_630 departureTimes_three
  by simp_all

lemma deadlines_same:
  "get_going_by sv_first = Some 1714549769000" "arrive_by sv_first = Some 1714551510000"
  "get_going_by sv_second = Some 1714549769000" "arrive_by sv_second = Some 1714551510000"
  unfolding sv_first_def sv_second_def deadlines_630 departureTime_dep_a
  by simp_all

lemma route_ids_concrete:
  "svc_route_id sv_05 = 13067" "svc_route_id sv_10 = 13067" "svc_route_id sv_20 = 13067"
  "svc_route_id sv_first = 13067" "svc_route_id sv_second = 13067"
  unfolding sv_05_def sv_10_def sv_20_def sv_first_def sv_second_def route_id_built_service
  by (simp_all add: conn_id_630)

lemma sort_three: "sort_services [sv_20, sv_05, sv_10] = [sv_05, sv_10, sv_20]"
  by (simp add: not_after_def comparator_def deadlines_three)

lemma sort_same: "sort_services [sv_first, sv_second] = [sv_first, sv_second]"
  by (simp add: not_after_def comparator_def deadlines_same)

lemma tests_three:
  "skipped (advancing_clock 0) 120 sv_05"
  "\<not> skipped (advancing_clock (Suc 0)) 120 sv_10"
  "\<not> skipped (advancing_clock (Suc (Suc 0))) 120 sv_20"
  unfolding skipped_def td_def deadlines_three advancing_clock_def by simp_all

lemma tests_same:
  "\<not> skipped (closing_clock 0) 120 sv_first"
  "skipped (closing_clock (Suc 0)) 120 sv_second"
  unfolding skipped_def td_def deadlines_same closing_clock_def by simp_all

theorem updateTable_visible_sorted_witness:
  "Object_values (services table_three) = [sv_20, sv_05, sv_10]
   \<and> arrive_by sv_20 = Some 1714552650000
   \<and> arrive_by sv_05 = Some 1714551750000
   \<and> arrive_by sv_10 = Some 1714552050000
   \<and> get_going_by sv_05 = Some 1714550009000
   \<and> advancing_clock 0 = 1714550200000
   \<and> snd (updateTable connections advancing_clock 120 (services table_three)) = None
   \<and> map row_service (fst (updateTable connections advancing_clock 120 (services table_three)))
       = [sv_10, sv_20]"
proof -
  have hyp: "\<forall>s\<in>set (Object_values (services table_three)).
       arrive_by s \<noteq> None \<and> map_of (fromEntries connections) (svc_route_id s) \<noteq> None"
    unfolding values_table_three
    using catalog_has_630 by (simp add: deadlines_three route_ids_concrete)
  note T = updateTable_visible_sorted [OF hyp, of advancing_clock 120]
  from T have ok: "snd (updateTable connections advancing_clock 120 (services table_three)) = None"
    by (rule conjunct1)
  from T have "map row_service (fst (updateTable connections advancing_clock 120 (services table_three)))
      = map snd (filter (\<lambda>(k, s). \<not> skipped (advancing_clock k) 120 s)
          (enumerate 0 (sort_services (Object_values (services table_three)))))"
    by (rule conjunct2 [THEN conjunct2, THEN conjunct2, THEN conjunct1])
  also have "\<dots> = [sv_10, sv_20]"
    unfolding values_table_three sort_three
    using tests_three by simp
  finally have rows: "map row_service
      (fst (updateTable connections advancing_clock 120 (services table_three))) = [sv_10, sv_20]" .
  have c0: "advancing_clock 0 = 1714550200000"
    by (simp add: advancing_clock_def)
  show ?thesis
    by (rule conjI [OF values_table_three conjI [OF deadlines_three(6) conjI [OF deadlines_three(2)
          conjI [OF deadlines_three(4) conjI [OF deadlines_three(1) conjI [OF c0
          conjI [OF ok rows]]]]]]])
qed

theorem one_reading_per_row_counterexample:
  "Object_values (services table_same) = [sv_first, sv_second]
   \<and> get_going_by sv_first = Some 1714549769000
   \<and> get_going_by sv_second = Some 1714549769000
   \<and> svc_id sv_first \<noteq> svc_id sv_second
   \<and> closing_clock 0 = 1714549889000
   \<and> closing_clock 1 = 1714549889001
   \<and> map row_service (fst (updateTable connections closing_clock 120 (services table_same)))
       = [sv_first]"
proof -
  have ids: "\<forall>s\<in>set [sv_first, sv_second]. map_of (fromEntries connections) (svc_route_id s) \<noteq> None"
    using catalog_has_630 by (simp add: route_ids_concrete)
  have "map row_service (fst (updateTable connections closing_clock 120 (services table_same)))
      = map snd (filter (\<lambda>(k, s). \<not> skipped (closing_clock k) 120 s)
          (enumerate 0 [sv_first, sv_second]))"
    unfolding updateTable_def values_table_same sort_same
    using render_rows [OF ids, of closing_clock 120 0] by (rule conjunct1)
  also have "\<dots> = [sv_first]"
    using tests_same by simp
  finally have rows: "map row_service
      (fst (updateTable connections closing_clock 120 (services table_same))) = [sv_first]" .
  have differ: "svc_id sv_first \<noteq> svc_id sv_second"
    unfolding sv_first_def sv_second_def svc_id_built_service
    by (rule slots_630_distinct(1))
  have c0: "closing_clock 0 = 1714549889000" and c1: "closing_clock 1 = 1714549889001"
    by (simp_all add: closing_clock_def)
  show ?thesis
    by (rule conjI [OF values_table_same conjI [OF deadlines_same(1) conjI [OF deadlines_same(3)
          conjI [OF differ conjI [OF c0 conjI [OF c1 rows]]]]]])
qed

subsection \<open>A failed call\<close>

lemma entries_connections:
  "Object_entries connections =
     [(4, conn_4), (11, conn_11), (8922, conn_8922), connections ! 4, connections ! 5,
      connections ! 7, connections ! 0, connections ! 1, connections ! 3, connections ! 2]"
  by (simp add: Object_entries_def fromEntries_def connections_def conn_4_def conn_11_def
      conn_8922_def)

lemma checkRoutes_loop_append:
  "checkRoutes_loop devid net b pre s = (s1, None)
    \<Longrightarrow> checkRoutes_loop devid net b (pre @ es) s = checkRoutes_loop devid net b es s1"
proof (induction pre arbitrary: s)
  case Nil
  then show ?case by simp
next
  case (Cons rc pre)
  obtain r c where rc: "rc = (r, c)" by (cases rc)
  from Cons.prems show ?case
    unfolding rc append_Cons checkRoutes_loop_Cons
    by (auto split: sum.splits option.splits intro: Cons.IH)
qed

lemma merge_connection_other_routes:
  "r' \<noteq> r \<Longrightarrow> map_of (services (fst (merge_connection r c b rp dp s))) (idString r' d st i)
      = map_of (services s) (idString r' d st i)"
  by (rule merge_connection_other) (rule slot_id_other_route)

lemma checkRoutes_loop_other_routes:
  "r' \<notin> fst ` set es
    \<Longrightarrow> map_of (services (fst (checkRoutes_loop devid net b es s))) (idString r' d st i)
        = map_of (services s) (idString r' d st i)"
proof (induction es arbitrary: s)
  case Nil
  show ?case by simp
next
  case (Cons rc es)
  obtain r c where rc: "rc = (r, c)" by (cases rc)
  from Cons.prems rc have ne: "r' \<noteq> r" and rest: "r' \<notin> fst ` set es"
    by auto
  have m: "map_of (services (fst (merge_connection r c b rp dp s))) (idString r' d st i)
      = map_of (services s) (idString r' d st i)" for rp dp
    using ne by (rule merge_connection_other_routes)
  have n: "map_of (services (fst (checkRoutes_loop devid net b es (fst (merge_connection r c b rp dp s)))))
        (idString r' d st i) = map_of (services s) (idString r' d st i)" for rp dp
    using Cons.IH [OF rest, of "fst (merge_connection r c b rp dp s)"] m [of rp dp] by simp
  show ?case
    unfolding rc checkRoutes_loop_Cons
    using m n by (simp split: sum.splits option.splits)
qed

lemma resume_failed_call:
  assumes "settle_call out = Inl e"
  shows "resume b (AwaitRuns ((r, c) # rest)) out s = (s, None, Some e)"
    and "resume b (AwaitDepartures rp ((r, c) # rest)) out s = (s, None, Some e)"
  using assms by simp_all

text \<open>
  Claim C2, as amended. When a call for a connection fails, the refresh ends there: the
  connections before it have been processed, the state is left as it was when the failing
  connection's turn began, so its stored Services and those of every later connection are
  unchanged, the later connections are not processed in this refresh (the outcome does not
  depend on them), and the failure is the outcome of the refresh.
\<close>

theorem failed_call_ends_refresh:
  assumes "checkRoutes_loop devid net b pre s = (s1, None)"
    and "call devid net (runs_endpoint r c) [(''expand'', ''VehiclePosition'')] = Inl e
         \<or> (\<exists>rp. call devid net (runs_endpoint r c) [(''expand'', ''VehiclePosition'')] = Inr rp
                \<and> call devid net (departures_endpoint r c) (departures_params c) = Inl e)"
  shows "checkRoutes_loop devid net b (pre @ (r, c) # post) s = (s1, Some e)
       \<and> (r \<notin> fst ` set pre
            \<longrightarrow> (\<forall>d st i. map_of (services s1) (idString r d st i)
                            = map_of (services s) (idString r d st i)))"
proof
  have "checkRoutes_loop devid net b ((r, c) # post) s1 = (s1, Some e)"
    unfolding checkRoutes_loop_Cons using assms(2) by auto
  with assms(1) show "checkRoutes_loop devid net b (pre @ (r, c) # post) s = (s1, Some e)"
    by (simp add: checkRoutes_loop_append)
next
  show "r \<notin> fst ` set pre
      \<longrightarrow> (\<forall>d st i. map_of (services s1) (idString r d st i) = map_of (services s) (idString r d st i))"
  proof (intro impI allI)
    fix d st i
    assume "r \<notin> fst ` set pre"
    then have "map_of (services (fst (checkRoutes_loop devid net b pre s))) (idString r d st i)
        = map_of (services s) (idString r d st i)"
      by (rule checkRoutes_loop_other_routes)
    with assms(1) show "map_of (services s1) (idString r d st i) = map_of (services s) (idString r d st i)"
      by simp
  qed
qed

lemma catalog_fields:
  "conn_type conn_4 = 0" "origin (forward_direction conn_4) = 1150"
  "conn_type conn_11 = 0" "origin (forward_direction conn_11) = 1150"
  "conn_type conn_8922 = 2" "origin (forward_direction conn_8922) = 10005"
  by (simp_all add: conn_4_def conn_11_def conn_8922_def connections_def)

lemma show_nat_more:
  "show_nat 4 = ''4''" "show_nat 11 = ''11''" "show_nat 1150 = ''1150''"
  "show_nat 8922 = ''8922''" "show_nat 2 = ''2''" "show_nat 10005 = ''10005''"
  by (simp_all add: show_nat.simps digit_chars)

lemma endpoints:
  "runs_endpoint 4 conn_4 = ''/v3/runs/route/4/route_type/0''"
  "departures_endpoint 4 conn_4 = ''/v3/departures/route_type/0/stop/1150/route/4''"
  "runs_endpoint 11 conn_11 = ''/v3/runs/route/11/route_type/0''"
  "departures_endpoint 11 conn_11 = ''/v3/departures/route_type/0/stop/1150/route/11''"
  "runs_endpoint 8922 conn_8922 = ''/v3/runs/route/8922/route_type/2''"
  "departures_endpoint 8922 conn_8922 = ''/v3/departures/route_type/2/stop/10005/route/8922''"
  by (simp_all add: runs_endpoint_def departures_endpoint_def catalog_fields show_nat_more
      show_nat_values)

lemma calls_net_11_down:
  "call devid net_11_down (runs_endpoint 4 conn_4) ps = Inr payload_ok"
  "call devid net_11_down (departures_endpoint 4 conn_4) ps = Inr payload_ok"
  "call devid net_11_down (runs_endpoint 11 conn_11) ps = Inr payload_ok"
  "call devid net_11_down (departures_endpoint 11 conn_11) ps = Inl FetchRejected"
  "call devid net_11_down (runs_endpoint 8922 conn_8922) ps = Inr payload_ok"
  "call devid net_11_down (departures_endpoint 8922 conn_8922) ps = Inr payload_ok"
  unfolding endpoints by (simp_all add: call_def net_11_down_def settle_call_def)

lemma disruptions_payload_ok: "disruptions payload_ok = Some []"
  by (simp add: payload_ok_def)

lemma slots_payload_ok: "slots payload_ok = [dep_a]"
  by (simp add: slots_def payload_ok_def)

lemma route_4_processed:
  "checkRoutes_loop devid net_11_down 120 [(4, conn_4)] initial_state = (after_route_4, None)"
  unfolding checkRoutes_loop_Cons calls_net_11_down after_route_4_def
  using merge_connection_no_error [OF disruptions_payload_ok, of 4 conn_4 120 payload_ok initial_state]
  by simp

theorem failed_call_ends_refresh_witness:
  "checkRoutes_loop ''3000000'' net_11_down 120 [(4, conn_4)] initial_state = (after_route_4, None)
   \<and> call ''3000000'' net_11_down (runs_endpoint 11 conn_11) [(''expand'', ''VehiclePosition'')]
       = Inr payload_ok
   \<and> call ''3000000'' net_11_down (departures_endpoint 11 conn_11) (departures_params conn_11)
       = Inl FetchRejected
   \<and> checkRoutes ''3000000'' connections net_11_down 120 initial_state
       = (after_route_4, Some FetchRejected)
   \<and> map_of (services after_route_4) (slot_id 11 conn_11 0)
       = map_of (services initial_state) (slot_id 11 conn_11 0)"
proof -
  note pre = route_4_processed [of "''3000000''"]
  note runs_ok = calls_net_11_down(3) [of "''3000000''" "[(''expand'', ''VehiclePosition'')]"]
  note deps_fail = calls_net_11_down(4) [of "''3000000''" "departures_params conn_11"]
  have fail: "call ''3000000'' net_11_down (runs_endpoint 11 conn_11) [(''expand'', ''VehiclePosition'')]
        = Inl FetchRejected
      \<or> (\<exists>rp. call ''3000000'' net_11_down (runs_endpoint 11 conn_11)
                  [(''expand'', ''VehiclePosition'')] = Inr rp
            \<and> call ''3000000'' net_11_down (departures_endpoint 11 conn_11) (departures_params conn_11)
                = Inl FetchRejected)"
    using runs_ok deps_fail by blast
  note T = failed_call_ends_refresh [OF pre fail,
      of "[(8922, conn_8922), connections ! 4, connections ! 5, connections ! 7, connections ! 0,
           connections ! 1, connections ! 3, connections ! 2]"]
  have whole: "checkRoutes ''3000000'' connections net_11_down 120 initial_state
      = (after_route_4, Some FetchRejected)"
    using T [THEN conjunct1] by (simp add: checkRoutes_def entries_connections)
  have "(11::nat) \<notin> fst ` set [(4, conn_4)]"
    by simp
  with T have kept: "map_of (services after_route_4) (slot_id 11 conn_11 0)
      = map_of (services initial_state) (slot_id 11 conn_11 0)"
    unfolding slot_id_def by blast
  show ?thesis
    by (rule conjI [OF pre conjI [OF runs_ok conjI [OF deps_fail conjI [OF whole kept]]]])
qed

lemma refresh_net_11_down:
  "checkRoutes devid connections net_11_down 120 initial_state = (after_route_4, Some FetchRejected)"
proof -
  have ok: "snd (merge_connection 4 conn_4 120 payload_ok payload_ok initial_state) = None"
    using disruptions_payload_ok by (rule merge_connection_no_error)
  show ?thesis
    unfolding checkRoutes_def entries_connections checkRoutes_loop_Cons calls_net_11_down
    using ok by (simp add: after_route_4_def)
qed

theorem failed_call_skips_later_connections_counterexample:
  "map fst (Object_entries connections) = [4, 11, 8922, 8924, 8934, 12753, 13067, 13271, 13820, 14930]
   \<and> call ''3000000'' net_11_down (departures_endpoint 11 conn_11) (departures_params conn_11)
       = Inl FetchRejected
   \<and> checkRoutes ''3000000'' connections net_11_down 120 initial_state
       = (after_route_4, Some FetchRejected)
   \<and> call ''3000000'' net_11_down (runs_endpoint 8922 conn_8922) [(''expand'', ''VehiclePosition'')]
       = Inr payload_ok
   \<and> call ''3000000'' net_11_down (departures_endpoint 8922 conn_8922) (departures_params conn_8922)
       = Inr payload_ok
   \<and> map_of (services (fst (merge_connection 8922 conn_8922 120 payload_ok payload_ok after_route_4)))
        (slot_id 8922 conn_8922 0)
       = Some (built_service 8922 conn_8922 120 payload_ok payload_ok after_route_4 0 dep_a)
   \<and> map_of (services after_route_4) (slot_id 8922 conn_8922 0) = None"
proof -
  have order: "map fst (Object_entries connections)
      = [4, 11, 8922, 8924, 8934, 12753, 13067, 13271, 13820, 14930]"
    unfolding entries_connections by (simp add: connections_def)
  note deps_fail = calls_net_11_down(4) [of "''3000000''" "departures_params conn_11"]
  note whole = refresh_net_11_down [of "''3000000''"]
  note runs_ok = calls_net_11_down(5) [of "''3000000''" "[(''expand'', ''VehiclePosition'')]"]
  note deps_ok = calls_net_11_down(6) [of "''3000000''" "departures_params conn_8922"]
  have pos: "0 < length (slots payload_ok)" and nth: "slots payload_ok ! 0 = dep_a"
    by (simp_all add: slots_payload_ok)
  have would: "map_of (services (fst (merge_connection 8922 conn_8922 120 payload_ok payload_ok
        after_route_4))) (slot_id 8922 conn_8922 0)
      = Some (built_service 8922 conn_8922 120 payload_ok payload_ok after_route_4 0 dep_a)"
    using merge_connection_slot [OF disruptions_payload_ok pos, of 8922 conn_8922 120 payload_ok
        after_route_4]
    unfolding nth .
  have "(8922::nat) \<noteq> 4" by simp
  then have "map_of (services after_route_4) (slot_id 8922 conn_8922 0)
      = map_of (services initial_state) (slot_id 8922 conn_8922 0)"
    unfolding after_route_4_def slot_id_def [of 8922] by (rule merge_connection_other_routes)
  then have absent: "map_of (services after_route_4) (slot_id 8922 conn_8922 0) = None"
    by (simp add: initial_state_def)
  show ?thesis
    by (rule conjI [OF order conjI [OF deps_fail conjI [OF whole conjI [OF runs_ok
          conjI [OF deps_ok conjI [OF would absent]]]]]])
qed

subsection \<open>Refreshes in flight\<close>

lemma start_refresh_nonempty:
  "Object_entries cat \<noteq> [] \<Longrightarrow> start_refresh cat = [AwaitRuns (Object_entries cat)]"
  by (cases "Object_entries cat") (simp_all add: start_refresh_def)

lemma reachable_initial: "reachable cat (initial_system cat)"
  by (simp add: reachable_def)

lemma reachable_step: "reachable cat sys \<Longrightarrow> step cat sys sys' \<Longrightarrow> reachable cat sys'"
  unfolding reachable_def by (rule rtranclp.rtrancl_into_rtrancl)

lemma reachable_any_number_in_flight:
  assumes "Object_entries cat \<noteq> []"
  shows "\<exists>sys. reachable cat sys \<and> length (tasks sys) = Suc n"
proof (induction n)
  case 0
  have "length (tasks (initial_system cat)) = Suc 0"
    using assms by (simp add: initial_system_def start_refresh_nonempty)
  with reachable_initial show ?case by blast
next
  case (Suc n)
  then obtain sys where r: "reachable cat sys" and len: "length (tasks sys) = Suc n"
    by blast
  let ?sys' = "sys\<lparr>tasks := tasks sys @ start_refresh cat\<rparr>"
  have "step cat sys ?sys'"
    by (rule step.refresh_timer)
  with r have "reachable cat ?sys'"
    by (rule reachable_step)
  moreover have "length (tasks ?sys') = Suc (Suc n)"
    using assms len by (simp add: start_refresh_nonempty)
  ultimately show ?case by blast
qed

lemma entries_connections_nonempty: "Object_entries connections \<noteq> []"
  by (simp add: entries_connections)

text \<open>
  Claim C6, as amended. The scheduler has no re-entrancy guard. In every state of the
  system, whatever refreshes are in flight, the firing of the refresh timer starts one more
  refresh over the connections; for a catalog that is not empty any number of refreshes can
  be in flight at once.
\<close>

theorem refresh_timer_has_no_guard:
  assumes "Object_entries cat \<noteq> []"
  shows "step cat sys (sys\<lparr>tasks := tasks sys @ [AwaitRuns (Object_entries cat)]\<rparr>)
       \<and> (\<exists>sys'. reachable cat sys' \<and> length (tasks sys') = Suc n)"
proof
  have "step cat sys (sys\<lparr>tasks := tasks sys @ start_refresh cat\<rparr>)"
    by (rule step.refresh_timer)
  then show "step cat sys (sys\<lparr>tasks := tasks sys @ [AwaitRuns (Object_entries cat)]\<rparr>)"
    using assms by (simp add: start_refresh_nonempty)
next
  show "\<exists>sys'. reachable cat sys' \<and> length (tasks sys') = Suc n"
    using assms by (rule reachable_any_number_in_flight)
qed

theorem refresh_timer_has_no_guard_witness:
  "Object_entries connections \<noteq> []
   \<and> step connections (initial_system connections)
        ((initial_system connections)
           \<lparr>tasks := tasks (initial_system connections) @ [AwaitRuns (Object_entries connections)]\<rparr>)
   \<and> (\<exists>sys'. reachable connections sys' \<and> length (tasks sys') = Suc 1)"
proof -
  note T = refresh_timer_has_no_guard [OF entries_connections_nonempty,
      of "initial_system connections" 1]
  show ?thesis
    by (rule conjI [OF entries_connections_nonempty T])
qed

theorem two_refreshes_in_flight_counterexample:
  "reachable connections sys_overlap
   \<and> tasks sys_overlap
       = [AwaitRuns (Object_entries connections), AwaitRuns (Object_entries connections)]
   \<and> length (tasks sys_overlap) = 2"
proof -
  have "step connections (initial_system connections) sys_overlap"
    unfolding sys_overlap_def by (rule step.refresh_timer)
  with reachable_initial have r: "reachable connections sys_overlap"
    by (rule reachable_step)
  have t: "tasks sys_overlap
      = [AwaitRuns (Object_entries connections), AwaitRuns (Object_entries connections)]"
    by (simp add: sys_overlap_def initial_system_def
        start_refresh_nonempty [OF entries_connections_nonempty])
  have l: "length (tasks sys_overlap) = 2"
    unfolding t by simp
  show ?thesis
    by (rule conjI [OF r conjI [OF t l]])
qed

subsection \<open>Tables of a well-formed catalog\<close>

lemma values_update_subset:
  "set (map snd (AList.update k v al)) \<subseteq> insert v (set (map snd al))"
  by (induction al) auto

lemma departures_loop_values:
  "sv \<in> set (map snd (fst (departures_loop r c b ar ev dp index ds svcs)))
    \<Longrightarrow> sv \<in> set (map snd svcs) \<or> (\<exists>ts i d. sv = build_service r c b ar ev ts i d)"
proof (induction ds arbitrary: index svcs)
  case Nil
  then show ?case by simp
next
  case (Cons d ds)
  show ?case
  proof (cases "disruptions dp")
    case None
    with Cons.prems show ?thesis by simp
  next
    case (Some dis)
    let ?sv = "build_service r c b ar ev (map (\<lambda>x. trim (title x)) (Object_values dis)) index d"
    from Cons.prems Some
    have "sv \<in> set (map snd (fst (departures_loop r c b ar ev dp (Suc index) ds
            (AList.update (svc_id ?sv) ?sv svcs))))"
      by (simp add: Let_def)
    then have "sv \<in> set (map snd (AList.update (svc_id ?sv) ?sv svcs))
        \<or> (\<exists>ts i d. sv = build_service r c b ar ev ts i d)"
      by (rule Cons.IH)
    then show ?thesis
      using values_update_subset [of "svc_id ?sv" ?sv svcs] by blast
  qed
qed

lemma merge_connection_values:
  assumes "sv \<in> set (Object_values (services (fst (merge_connection r c b rp dp s))))"
  shows "sv \<in> set (Object_values (services s)) \<or> (\<exists>ar ev ts i d. sv = build_service r c b ar ev ts i d)"
proof (cases "departures dp")
  case None
  with assms show ?thesis
    by (simp add: merge_connection_def Let_def)
next
  case (Some ds)
  with assms have "sv \<in> set (map snd (fst (departures_loop r c b
      (activeRuns_of rp (dir_id (forward_direction c)))
      (observe rp (dir_id (forward_direction c)) (everActive s)) dp 0 ds (services s))))"
    by (simp add: merge_connection_def Let_def case_prod_beta Object_values_def)
  from departures_loop_values [OF this] show ?thesis
    unfolding Object_values_def by blast
qed

lemma set_Object_entries: "set (Object_entries cat) = set (fromEntries cat)"
  by (simp add: Object_entries_def)

lemma lookup_entry:
  assumes "(r, c) \<in> set (Object_entries cat)"
  shows "map_of (fromEntries cat) r = Some c"
  using assms distinct_keys_fromEntries [of cat]
  by (simp add: set_Object_entries)

lemma renderable_build_service:
  assumes "wellformed_catalog cat" and "(r, c) \<in> set (Object_entries cat)"
  shows "renderable cat (build_service r c b ar ev ts i d)"
proof -
  from assms have wf: "wellformed_entry (r, c)"
    by (simp add: wellformed_catalog_def list_all_iff)
  then obtain wb wa where wb: "walking c (origin (forward_direction c)) = Some wb"
    and wa: "walking c (destination (forward_direction c)) = Some wa"
    by (auto simp: wellformed_entry_def)
  from wf have id: "conn_id c = r"
    by (simp add: wellformed_entry_def)
  have "svc_route_id (build_service r c b ar ev ts i d) = r"
    using id by (simp add: build_service_def Let_def)
  then show ?thesis
    using build_service_deadlines [OF wb wa, of r b ar ev ts i d] lookup_entry [OF assms(2)]
    by (simp add: renderable_def)
qed

lemma merge_connection_renderable:
  assumes "wellformed_catalog cat" and "(r, c) \<in> set (Object_entries cat)"
    and "\<forall>sv\<in>set (Object_values (services s)). renderable cat sv"
  shows "\<forall>sv\<in>set (Object_values (services (fst (merge_connection r c b rp dp s)))). renderable cat sv"
proof
  fix sv
  assume "sv \<in> set (Object_values (services (fst (merge_connection r c b rp dp s))))"
  from merge_connection_values [OF this] show "renderable cat sv"
    using assms(3) renderable_build_service [OF assms(1,2)] by blast
qed

lemma resume_invariant:
  assumes "wellformed_catalog cat"
    and "set (task_entries t) \<subseteq> set (Object_entries cat)"
    and "\<forall>sv\<in>set (Object_values (services s)). renderable cat sv"
    and "resume b t out s = (s', t', e)"
  shows "(\<forall>sv\<in>set (Object_values (services s')). renderable cat sv)
       \<and> (\<forall>u\<in>set (option_list t'). set (task_entries u) \<subseteq> set (Object_entries cat))"
proof (cases t)
  case (AwaitRuns es)
  show ?thesis
  proof (cases es)
    case Nil
    with assms AwaitRuns show ?thesis by (simp add: option_list_def)
  next
    case (Cons rc rest)
    obtain r c where rc: "rc = (r, c)" by (cases rc)
    from assms AwaitRuns Cons rc show ?thesis
      by (cases "settle_call out") (auto simp: option_list_def)
  qed
next
  case (AwaitDepartures rp es)
  show ?thesis
  proof (cases es)
    case Nil
    with assms AwaitDepartures show ?thesis by (simp add: option_list_def)
  next
    case (Cons rc rest)
    obtain r c where rc: "rc = (r, c)" by (cases rc)
    from assms(2) AwaitDepartures Cons rc
    have mem: "(r, c) \<in> set (Object_entries cat)" and rest: "set rest \<subseteq> set (Object_entries cat)"
      by simp_all
    show ?thesis
    proof (cases "settle_call out")
      case (Inl err)
      with assms AwaitDepartures Cons rc show ?thesis by (auto simp: option_list_def)
    next
      case (Inr dp)
      have s': "s' = fst (merge_connection r c b rp dp s)"
        using assms(4) AwaitDepartures Cons rc Inr
        by (cases "merge_connection r c b rp dp s") (auto split: option.splits)
      have t': "set (option_list t') \<subseteq> {AwaitRuns rest}"
        using assms(4) AwaitDepartures Cons rc Inr
        by (cases "merge_connection r c b rp dp s")
           (auto simp: option_list_def split: option.splits if_splits)
      have "\<forall>sv\<in>set (Object_values (services s')). renderable cat sv"
        unfolding s' using assms(1) mem assms(3) by (rule merge_connection_renderable)
      moreover have "\<forall>u\<in>set (option_list t'). set (task_entries u) \<subseteq> set (Object_entries cat)"
      proof
        fix u assume "u \<in> set (option_list t')"
        with t' have "u = AwaitRuns rest" by blast
        with rest show "set (task_entries u) \<subseteq> set (Object_entries cat)" by simp
      qed
      ultimately show ?thesis by simp
    qed
  qed
qed

lemma step_invariant:
  assumes "wellformed_catalog cat" and "step cat sys sys'"
    and "\<forall>t\<in>set (tasks sys). set (task_entries t) \<subseteq> set (Object_entries cat)"
    and "\<forall>sv\<in>set (Object_values (services (shared sys))). renderable cat sv"
  shows "(\<forall>t\<in>set (tasks sys'). set (task_entries t) \<subseteq> set (Object_entries cat))
       \<and> (\<forall>sv\<in>set (Object_values (services (shared sys'))). renderable cat sv)"
  using assms(2,3,4)
proof (induction rule: step.induct)
  case (refresh_timer sys)
  then show ?case
    by (auto simp: start_refresh_def split: list.splits)
next
  case (tick_timer clock sys rows e)
  then show ?case by simp
next
  case (settled i sys out s' t' e)
  from settled.hyps(1) settled.prems(1)
  have ti: "set (task_entries (tasks sys ! i)) \<subseteq> set (Object_entries cat)"
    by simp
  from resume_invariant [OF assms(1) ti settled.prems(2) settled.hyps(2)]
  have sv: "\<forall>sv\<in>set (Object_values (services s')). renderable cat sv"
    and new: "\<forall>u\<in>set (option_list t'). set (task_entries u) \<subseteq> set (Object_entries cat)"
    by simp_all
  have "t \<in> set (take i (tasks sys)) \<Longrightarrow> t \<in> set (tasks sys)" for t
    by (rule in_set_takeD)
  moreover have "t \<in> set (drop (Suc i) (tasks sys)) \<Longrightarrow> t \<in> set (tasks sys)" for t
    by (rule in_set_dropD)
  ultimately show ?case
    using sv new settled.prems(1) by auto
qed

lemma reachable_renderable:
  assumes "wellformed_catalog cat" and "reachable cat sys"
  shows "\<forall>sv\<in>set (Object_values (services (shared sys))). renderable cat sv"
proof -
  have "(\<forall>t\<in>set (tasks sys). set (task_entries t) \<subseteq> set (Object_entries cat))
      \<and> (\<forall>sv\<in>set (Object_values (services (shared sys))). renderable cat sv)"
    using assms(2) unfolding reachable_def
  proof (induction rule: rtranclp_induct)
    case base
    show ?case
      by (auto simp: initial_system_def initial_state_def start_refresh_def Object_values_def
          split: list.splits)
  next
    case (step y z)
    from step_invariant [OF assms(1) step.hyps(2)] step.IH show ?case
      by blast
  qed
  then show ?thesis by simp
qed

lemma wellformed_connections: "wellformed_catalog connections"
  unfolding wellformed_catalog_def entries_connections
  by (simp add: wellformed_entry_def connections_def conn_4_def conn_11_def conn_8922_def)

lemma reachable_table_renders:
  assumes "wellformed_catalog cat" and "reachable cat sys"
  shows "\<forall>s\<in>set (Object_values (services (shared sys))).
           arrive_by s \<noteq> None \<and> map_of (fromEntries cat) (svc_route_id s) \<noteq> None"
  using reachable_renderable [OF assms] by (simp add: renderable_def)

subsection \<open>A refresh on its own\<close>

text \<open>
  When no other refresh is in flight, the steps of one invocation of \<^verbatim>\<open>checkRoutes\<close>,
  each call settling with the answer of the network \<open>net\<close>, end in the state and with
  the outcome that \<open>checkRoutes_loop\<close> computes.
\<close>

lemma settled_single:
  assumes "resume default_buffer t out s = (s', t', e)"
  shows "step cat \<lparr>shared = s, tasks = [t], table = tb, unhandled = un\<rparr>
           \<lparr>shared = s', tasks = option_list t', table = tb, unhandled = un @ option_list e\<rparr>"
proof -
  let ?sys = "\<lparr>shared = s, tasks = [t], table = tb, unhandled = un\<rparr>"
  have "0 < length (tasks ?sys)" by simp
  moreover have "resume default_buffer (tasks ?sys ! 0) out (shared ?sys) = (s', t', e)"
    using assms by simp
  ultimately have "step cat ?sys
      (?sys\<lparr>shared := s',
             tasks := take 0 (tasks ?sys) @ option_list t' @ drop (Suc 0) (tasks ?sys),
             unhandled := unhandled ?sys @ option_list e\<rparr>)"
    by (rule step.settled)
  then show ?thesis by simp
qed

lemma refresh_alone:
  assumes "es \<noteq> []"
  shows "(step cat)\<^sup>*\<^sup>*
           \<lparr>shared = s, tasks = [AwaitRuns es], table = tb, unhandled = un\<rparr>
           \<lparr>shared = fst (checkRoutes_loop devid net default_buffer es s), tasks = [], table = tb,
             unhandled = un @ option_list (snd (checkRoutes_loop devid net default_buffer es s))\<rparr>"
  using assms
proof (induction es arbitrary: s)
  case Nil
  then show ?case by simp
next
  case (Cons rc rest)
  obtain r c where rc: "rc = (r, c)" by (cases rc)
  let ?b = default_buffer
  let ?out1 = "net \<lparr>endpoint = runs_endpoint r c,
      params = AList.update ''devid'' devid [(''expand'', ''VehiclePosition'')]\<rparr>"
  let ?out2 = "net \<lparr>endpoint = departures_endpoint r c,
      params = AList.update ''devid'' devid (departures_params c)\<rparr>"
  have c1: "call devid net (runs_endpoint r c) [(''expand'', ''VehiclePosition'')] = settle_call ?out1"
    by (simp add: call_def)
  have c2: "call devid net (departures_endpoint r c) (departures_params c) = settle_call ?out2"
    by (simp add: call_def)
  let ?start = "\<lparr>shared = s, tasks = [AwaitRuns ((r, c) # rest)], table = tb, unhandled = un\<rparr>"
  show ?case
  proof (cases "settle_call ?out1")
    case (Inl e)
    have "resume ?b (AwaitRuns ((r, c) # rest)) ?out1 s = (s, None, Some e)"
      using Inl by simp
    from settled_single [OF this, of cat tb un]
    have "step cat ?start \<lparr>shared = s, tasks = [], table = tb, unhandled = un @ [e]\<rparr>"
      by (simp add: option_list_def)
    moreover have "checkRoutes_loop devid net ?b ((r, c) # rest) s = (s, Some e)"
      unfolding checkRoutes_loop_Cons c1 using Inl by simp
    ultimately show ?thesis
      unfolding rc by (simp add: option_list_def)
  next
    case (Inr rp)
    let ?mid = "\<lparr>shared = s, tasks = [AwaitDepartures rp ((r, c) # rest)], table = tb, unhandled = un\<rparr>"
    have "resume ?b (AwaitRuns ((r, c) # rest)) ?out1 s
        = (s, Some (AwaitDepartures rp ((r, c) # rest)), None)"
      using Inr by simp
    from settled_single [OF this, of cat tb un]
    have first: "step cat ?start ?mid"
      by (simp add: option_list_def)
    show ?thesis
    proof (cases "settle_call ?out2")
      case (Inl e)
      have "resume ?b (AwaitDepartures rp ((r, c) # rest)) ?out2 s = (s, None, Some e)"
        using Inl by simp
      from settled_single [OF this, of cat tb un]
      have "step cat ?mid \<lparr>shared = s, tasks = [], table = tb, unhandled = un @ [e]\<rparr>"
        by (simp add: option_list_def)
      with first have "(step cat)\<^sup>*\<^sup>* ?start
          \<lparr>shared = s, tasks = [], table = tb, unhandled = un @ [e]\<rparr>"
        by (simp add: converse_rtranclp_into_rtranclp)
      moreover have "checkRoutes_loop devid net ?b ((r, c) # rest) s = (s, Some e)"
        unfolding checkRoutes_loop_Cons c1 c2 using \<open>settle_call ?out1 = Inr rp\<close> Inl by simp
      ultimately show ?thesis
        unfolding rc by (simp add: option_list_def)
    next
      case (Inr dp)
      let ?m = "merge_connection r c ?b rp dp s"
      show ?thesis
      proof (cases "snd ?m")
        case (Some e)
        have "resume ?b (AwaitDepartures rp ((r, c) # rest)) ?out2 s = (fst ?m, None, Some e)"
          using Inr Some by (cases ?m) simp
        from settled_single [OF this, of cat tb un]
        have "step cat ?mid \<lparr>shared = fst ?m, tasks = [], table = tb, unhandled = un @ [e]\<rparr>"
          by (simp add: option_list_def)
        with first have "(step cat)\<^sup>*\<^sup>* ?start
            \<lparr>shared = fst ?m, tasks = [], table = tb, unhandled = un @ [e]\<rparr>"
          by (simp add: converse_rtranclp_into_rtranclp)
        moreover have "checkRoutes_loop devid net ?b ((r, c) # rest) s = (fst ?m, Some e)"
          unfolding checkRoutes_loop_Cons c1 c2
          using \<open>settle_call ?out1 = Inr rp\<close> Inr Some by simp
        ultimately show ?thesis
          unfolding rc by (simp add: option_list_def)
      next
        case None
        have loop: "checkRoutes_loop devid net ?b ((r, c) # rest) s
            = checkRoutes_loop devid net ?b rest (fst ?m)"
          unfolding checkRoutes_loop_Cons c1 c2
          using \<open>settle_call ?out1 = Inr rp\<close> Inr None by simp
        have res: "resume ?b (AwaitDepartures rp ((r, c) # rest)) ?out2 s
            = (fst ?m, (if rest = [] then None else Some (AwaitRuns rest)), None)"
          using Inr None by (cases ?m) simp
        show ?thesis
        proof (cases "rest = []")
          case True
          from settled_single [OF res, of cat tb un] True
          have "step cat ?mid \<lparr>shared = fst ?m, tasks = [], table = tb, unhandled = un\<rparr>"
            by (simp add: option_list_def)
          with first have "(step cat)\<^sup>*\<^sup>* ?start
              \<lparr>shared = fst ?m, tasks = [], table = tb, unhandled = un\<rparr>"
            by (simp add: converse_rtranclp_into_rtranclp)
          then show ?thesis
            unfolding rc loop using True by (simp add: option_list_def)
        next
          case False
          let ?next = "\<lparr>shared = fst ?m, tasks = [AwaitRuns rest], table = tb, unhandled = un\<rparr>"
          from settled_single [OF res, of cat tb un] False
          have "step cat ?mid ?next"
            by (simp add: option_list_def)
          with first have "(step cat)\<^sup>*\<^sup>* ?start ?next"
            by (simp add: converse_rtranclp_into_rtranclp)
          moreover have "(step cat)\<^sup>*\<^sup>* ?next
              \<lparr>shared = fst (checkRoutes_loop devid net ?b rest (fst ?m)), tasks = [], table = tb,
                unhandled = un @ option_list (snd (checkRoutes_loop devid net ?b rest (fst ?m)))\<rparr>"
            using False by (rule Cons.IH)
          ultimately show ?thesis
            unfolding rc loop by (rule rtranclp_trans)
        qed
      qed
    qed
  qed
qed

text \<open>
  In every state that the system of the catalog of \<^verbatim>\<open>data.js\<close> reaches, the Services of
  the table have valid arrival instants and route ids that the renderer finds.
\<close>

lemma reachable_connections_table_renders:
  assumes "reachable connections sys"
  shows "\<forall>s\<in>set (Object_values (services (shared sys))).
           arrive_by s \<noteq> None \<and> map_of (fromEntries connections) (svc_route_id s) \<noteq> None"
  using wellformed_connections assms by (rule reachable_table_renders)

end
